theory Spec2Isabelle
  imports Main
begin

section \<open>Conventions of the embedding\<close>

text \<open>
  A \<^verbatim>\<open>HeapWord*\<close> is modelled as a natural number counting heap words, so that
  \<^verbatim>\<open>p + n\<close> on a \<^verbatim>\<open>HeapWord*\<close> is addition and \<^verbatim>\<open>pointer_delta(a, b)\<close> is
  \<open>a - b\<close>; the byte address of a word pointer is \<open>HeapWordSize * p\<close>. \<^verbatim>\<open>NULL\<close> results
  are \<open>None\<close>. An \<^verbatim>\<open>assert\<close> or \<^verbatim>\<open>guarantee\<close> of the source that fails ends the
  operation with \<open>Inl\<close> of a \<open>fatal\<close> value (the behaviour of a build with assertions
  enabled); nothing is returned to the caller in that case.
\<close>

datatype fatal = AssertFailed string | GuaranteeFailed string

definition HeapWordSize :: nat where
  "HeapWordSize = 8"

definition pointer_delta :: "nat \<Rightarrow> nat \<Rightarrow> nat" where
  "pointer_delta left right = left - right"

section \<open>Bump-pointer allocation in a region (SemeruHeapRegion, inline part)\<close>

text \<open>
  The contiguous space of a region: \<^verbatim>\<open>_bottom\<close>, \<^verbatim>\<open>_top\<close> and \<^verbatim>\<open>_end\<close>. The other
  fields of the region are not read or written by the allocation functions.
\<close>

record space =
  s_bottom :: nat
  s_top :: nat
  s_end :: nat

text \<open>
  \<^verbatim>\<open>allocate_impl(min_word_size, desired_word_size, actual_size)\<close>. The result is the
  returned pointer, the content of \<^verbatim>\<open>*actual_size\<close> after the call (its content before
  the call is the argument \<open>act\<close>) and the space after the call.
\<close>

definition allocate_impl :: "space \<Rightarrow> nat \<Rightarrow> nat \<Rightarrow> nat \<Rightarrow> nat option \<times> nat \<times> space" where
  "allocate_impl sp min_word_size desired_word_size act =
     (let obj = s_top sp;
          available = pointer_delta (s_end sp) obj;
          want_to_allocate = min available desired_word_size
      in if want_to_allocate \<ge> min_word_size
         then (let new_top = obj + want_to_allocate
               in (Some obj, want_to_allocate, sp\<lparr>s_top := new_top\<rparr>))
         else (None, act, sp))"

text \<open>
  \<^verbatim>\<open>par_allocate_impl\<close> is the same computation inside a retry loop around
  \<^verbatim>\<open>Atomic::cmpxchg(new_top, top_addr(), obj)\<close>. The other allocating threads are a
  schedule: before each access of this thread to \<^verbatim>\<open>_top\<close> (the load \<^verbatim>\<open>top()\<close> and
  the compare-and-swap) the next element of the schedule is consumed; \<open>Some t\<close> means
  that another thread has stored \<open>t\<close> into \<^verbatim>\<open>_top\<close> since this thread's last access,
  \<open>None\<close> that none has. Once the schedule is used up the thread runs undisturbed. The
  compare-and-swap succeeds exactly when \<^verbatim>\<open>_top\<close> still holds the value loaded.
\<close>

definition interfere :: "nat option \<Rightarrow> space \<Rightarrow> space" where
  "interfere e sp = (case e of None \<Rightarrow> sp | Some t \<Rightarrow> sp\<lparr>s_top := t\<rparr>)"

fun par_allocate_impl ::
  "nat option list \<Rightarrow> space \<Rightarrow> nat \<Rightarrow> nat \<Rightarrow> nat \<Rightarrow> nat option \<times> nat \<times> space" where
  "par_allocate_impl [] sp min_word_size desired_word_size act =
     (let obj = s_top sp;
          available = pointer_delta (s_end sp) obj;
          want_to_allocate = min available desired_word_size
      in if want_to_allocate \<ge> min_word_size
         then (let new_top = obj + want_to_allocate
               in (Some obj, want_to_allocate, sp\<lparr>s_top := new_top\<rparr>))
         else (None, act, sp))"
| "par_allocate_impl [e] sp min_word_size desired_word_size act =
     (let sp0 = interfere e sp;
          obj = s_top sp0;
          available = pointer_delta (s_end sp0) obj;
          want_to_allocate = min available desired_word_size
      in if want_to_allocate \<ge> min_word_size
         then (let new_top = obj + want_to_allocate
               in (Some obj, want_to_allocate, sp0\<lparr>s_top := new_top\<rparr>))
         else (None, act, sp0))"
| "par_allocate_impl (e # e' # sched) sp min_word_size desired_word_size act =
     (let sp0 = interfere e sp;
          obj = s_top sp0;
          available = pointer_delta (s_end sp0) obj;
          want_to_allocate = min available desired_word_size
      in if want_to_allocate \<ge> min_word_size
         then (let new_top = obj + want_to_allocate;
                   sp1 = interfere e' sp0
               in if s_top sp1 = obj
                  then (Some obj, want_to_allocate, sp1\<lparr>s_top := new_top\<rparr>)
                  else par_allocate_impl sched sp1 min_word_size desired_word_size act)
         else (None, act, sp0))"

text \<open>
  The contract in the words of the specification: failure without side effects when the
  remaining space is smaller than \<open>minSize\<close>, otherwise the old top is returned, top
  advances by \<open>min (end - top) desiredSize\<close> and that amount is the actual size.
\<close>

definition allocate_contract :: "space \<Rightarrow> nat \<Rightarrow> nat \<Rightarrow> nat \<Rightarrow> nat option \<times> nat \<times> space" where
  "allocate_contract sp minSize desiredSize act =
     (if s_end sp - s_top sp < minSize then (None, act, sp)
      else (Some (s_top sp), min (s_end sp - s_top sp) desiredSize,
            sp\<lparr>s_top := s_top sp + min (s_end sp - s_top sp) desiredSize\<rparr>))"

definition schedule_tops :: "nat option list \<Rightarrow> nat set" where
  "schedule_tops sched = {t. Some t \<in> set sched}"

section \<open>The region on the CPU server (heapRegion.cpp)\<close>

datatype region_type =
  Free | Eden | Survivor | Old | StartsHumongous | ContinuesHumongous | OpenArchive | ClosedArchive

text \<open>
  An event received by the tracer collaborator
  (\<^verbatim>\<open>HeapRegionTracer::send_region_type_change(index, from, to, start, used)\<close>).
\<close>

record trace_event =
  ev_index :: nat
  ev_from :: region_type
  ev_to :: region_type
  ev_start :: nat
  ev_used :: nat

text \<open>
  Calls that the region makes on its block offset table part
  (\<^verbatim>\<open>_sync_mem_cpu->_bot_part\<close>), which is a component of its own.
\<close>

datatype bot_call = ResetBot | SetForStartsHumongous nat nat | SetObjectCanSpan bool

text \<open>
  The fields of \<^verbatim>\<open>HeapRegion\<close> that the operations below read or write.
  \<open>humongous_start_region\<close> holds the index of the start region; \<open>in_cset\<close> is the
  answer of \<^verbatim>\<open>G1CollectedHeap::is_in_cset(this)\<close>; \<open>rem_set\<close> holds the entries of
  the remembered set; \<open>events\<close> is what the tracer has received so far and
  \<open>bot_calls\<close> what the block offset table part has been asked to do.
\<close>

record heap_region =
  hrm_index :: nat
  r_bottom :: nat
  r_top :: nat
  r_end :: nat
  compaction_top :: nat
  r_type :: region_type
  humongous_start_region :: "nat option"
  in_cset :: bool
  young_index_in_cset :: int
  surv_rate_group :: "nat option"
  age_index :: int
  pre_dummy_top :: "nat option"
  rem_set :: "nat list"
  prev_marked_bytes :: nat
  next_marked_bytes :: nat
  prev_top_at_mark_start :: nat
  next_top_at_mark_start :: nat
  bot_calls :: "bot_call list"
  events :: "trace_event list"

definition used :: "heap_region \<Rightarrow> nat" where
  "used r = HeapWordSize * pointer_delta (r_top r) (r_bottom r)"

definition is_humongous :: "heap_region \<Rightarrow> bool" where
  "is_humongous r = (r_type r = StartsHumongous \<or> r_type r = ContinuesHumongous)"

definition is_starts_humongous :: "heap_region \<Rightarrow> bool" where
  "is_starts_humongous r = (r_type r = StartsHumongous)"

text \<open>\<^verbatim>\<open>get_trace_type()\<close> reads the current type of the region.\<close>

definition get_trace_type :: "heap_region \<Rightarrow> region_type" where
  "get_trace_type r = r_type r"

definition report_region_type_change :: "region_type \<Rightarrow> heap_region \<Rightarrow> heap_region" where
  "report_region_type_change to r =
     r\<lparr>events := events r @
        [\<lparr>ev_index = hrm_index r, ev_from = get_trace_type r, ev_to = to,
          ev_start = HeapWordSize * r_bottom r, ev_used = used r\<rparr>]\<rparr>"

text \<open>
  Modelled from the spec: the setters of \<^verbatim>\<open>HeapRegionType\<close> (heapRegionType.hpp is
  absent) store the new type tag; the specification calls them type transitions driven by
  the policy layer.
\<close>

definition type_set :: "region_type \<Rightarrow> heap_region \<Rightarrow> heap_region" where
  "type_set t r = r\<lparr>r_type := t\<rparr>"

text \<open>
  Modelled from the spec: \<^verbatim>\<open>HeapRegionType::relabel_as_old\<close> (absent) is the move-to-old
  relabel. It stores the \<open>Old\<close> tag and returns whether the tag has changed; a region
  that is old already is left as it is.
\<close>

definition relabel_as_old :: "heap_region \<Rightarrow> bool \<times> heap_region" where
  "relabel_as_old r = (if r_type r = Old then (False, r) else (True, r\<lparr>r_type := Old\<rparr>))"

definition set_free :: "heap_region \<Rightarrow> heap_region" where
  "set_free r = type_set Free (report_region_type_change Free r)"

definition set_eden :: "heap_region \<Rightarrow> heap_region" where
  "set_eden r = type_set Eden (report_region_type_change Eden r)"

definition set_eden_pre_gc :: "heap_region \<Rightarrow> heap_region" where
  "set_eden_pre_gc r = type_set Eden (report_region_type_change Eden r)"

definition set_survivor :: "heap_region \<Rightarrow> heap_region" where
  "set_survivor r = type_set Survivor (report_region_type_change Survivor r)"

definition move_to_old :: "heap_region \<Rightarrow> heap_region" where
  "move_to_old r =
     (case relabel_as_old r of
        (True, r') \<Rightarrow> report_region_type_change Old r'
      | (False, r') \<Rightarrow> r')"

definition set_old :: "heap_region \<Rightarrow> heap_region" where
  "set_old r = type_set Old (report_region_type_change Old r)"

definition set_open_archive :: "heap_region \<Rightarrow> heap_region" where
  "set_open_archive r = type_set OpenArchive (report_region_type_change OpenArchive r)"

definition set_closed_archive :: "heap_region \<Rightarrow> heap_region" where
  "set_closed_archive r = type_set ClosedArchive (report_region_type_change ClosedArchive r)"

definition set_starts_humongous :: "nat \<Rightarrow> nat \<Rightarrow> heap_region \<Rightarrow> fatal + heap_region" where
  "set_starts_humongous obj_top fill_size r =
     (if is_humongous r then Inl (AssertFailed ''sanity / pre-condition'')
      else if r_top r \<noteq> r_bottom r then Inl (AssertFailed ''should be empty'')
      else
        (let r1 = report_region_type_change StartsHumongous r;
             r2 = type_set StartsHumongous r1;
             r3 = r2\<lparr>humongous_start_region := Some (hrm_index r2)\<rparr>
         in Inr (r3\<lparr>bot_calls := bot_calls r3 @ [SetForStartsHumongous obj_top fill_size]\<rparr>)))"

definition set_continues_humongous :: "heap_region \<Rightarrow> heap_region \<Rightarrow> fatal + heap_region" where
  "set_continues_humongous first_hr r =
     (if is_humongous r then Inl (AssertFailed ''sanity / pre-condition'')
      else if r_top r \<noteq> r_bottom r then Inl (AssertFailed ''should be empty'')
      else if \<not> is_starts_humongous first_hr then Inl (AssertFailed ''pre-condition'')
      else
        (let r1 = report_region_type_change ContinuesHumongous r;
             r2 = type_set ContinuesHumongous r1;
             r3 = r2\<lparr>humongous_start_region := Some (hrm_index first_hr)\<rparr>
         in Inr (r3\<lparr>bot_calls := bot_calls r3 @ [SetObjectCanSpan True]\<rparr>)))"

subsection \<open>Clearing a region\<close>

text \<open>
  Modelled from the spec: the helpers that \<^verbatim>\<open>hr_clear\<close> and \<^verbatim>\<open>clear\<close> call are
  declared in heapRegion.hpp and heapRegionRemSet.hpp, which are absent. The specification
  says of them that the liveness counters are zeroed, that both TAMS are reset to
  \<open>bottom\<close> and that the remembered set is cleared; the remaining ones store the value
  their name says.
\<close>

definition set_young_index_in_cset :: "int \<Rightarrow> heap_region \<Rightarrow> heap_region" where
  "set_young_index_in_cset i r = r\<lparr>young_index_in_cset := i\<rparr>"

definition uninstall_surv_rate_group :: "heap_region \<Rightarrow> heap_region" where
  "uninstall_surv_rate_group r = r\<lparr>surv_rate_group := None, age_index := - 1\<rparr>"

definition reset_pre_dummy_top :: "heap_region \<Rightarrow> heap_region" where
  "reset_pre_dummy_top r = r\<lparr>pre_dummy_top := None\<rparr>"

definition rem_set_clear :: "heap_region \<Rightarrow> heap_region" where
  "rem_set_clear r = r\<lparr>rem_set := []\<rparr>"

definition rem_set_clear_locked :: "heap_region \<Rightarrow> heap_region" where
  "rem_set_clear_locked r = r\<lparr>rem_set := []\<rparr>"

definition zero_marked_bytes :: "heap_region \<Rightarrow> heap_region" where
  "zero_marked_bytes r = r\<lparr>prev_marked_bytes := 0, next_marked_bytes := 0\<rparr>"

definition init_top_at_mark_start :: "heap_region \<Rightarrow> heap_region" where
  "init_top_at_mark_start r =
     r\<lparr>prev_top_at_mark_start := r_bottom r, next_top_at_mark_start := r_bottom r\<rparr>"

definition set_top :: "nat \<Rightarrow> heap_region \<Rightarrow> heap_region" where
  "set_top t r = r\<lparr>r_top := t\<rparr>"

definition CompactibleSpace_clear :: "heap_region \<Rightarrow> heap_region" where
  "CompactibleSpace_clear r = r\<lparr>compaction_top := r_bottom r\<rparr>"

definition reset_bot :: "heap_region \<Rightarrow> heap_region" where
  "reset_bot r = r\<lparr>bot_calls := bot_calls r @ [ResetBot]\<rparr>"

text \<open>\<^verbatim>\<open>HeapRegion::clear(bool mangle_space)\<close>.\<close>

definition clear :: "heap_region \<Rightarrow> heap_region" where
  "clear r = reset_bot (CompactibleSpace_clear (set_top (r_bottom r) r))"

text \<open>\<^verbatim>\<open>HeapRegion::hr_clear(bool keep_remset, bool clear_space, bool locked)\<close>.\<close>

definition hr_clear :: "bool \<Rightarrow> bool \<Rightarrow> bool \<Rightarrow> heap_region \<Rightarrow> fatal + heap_region" where
  "hr_clear keep_remset clear_space locked r =
     (if humongous_start_region r \<noteq> None
      then Inl (AssertFailed ''we should have already filtered out humongous regions'')
      else if in_cset r
      then Inl (AssertFailed ''Should not clear heap region in the collection set'')
      else
        (let r1 = set_young_index_in_cset (- 1) r;
             r2 = uninstall_surv_rate_group r1;
             r3 = set_free r2;
             r4 = reset_pre_dummy_top r3;
             r5 = (if \<not> keep_remset
                   then (if locked then rem_set_clear_locked r4 else rem_set_clear r4)
                   else r4);
             r6 = zero_marked_bytes r5;
             r7 = init_top_at_mark_start r6
         in Inr (if clear_space then clear r7 else r7)))"

subsection \<open>Sending the region to its memory server\<close>

text \<open>
  \<^verbatim>\<open>region_to_memory_server_mapping()\<close>. The macro \<^verbatim>\<open>MEMORY_SERVER_1_START_ADDR\<close> is
  defined outside the sources at hand and is a parameter; \<^verbatim>\<open>(size_t)this->end()\<close> is
  the byte address of \<^verbatim>\<open>_end\<close>.
\<close>

definition region_to_memory_server_mapping :: "nat \<Rightarrow> heap_region \<Rightarrow> int" where
  "region_to_memory_server_mapping MEMORY_SERVER_1_START_ADDR r =
     (if HeapWordSize * r_end r < MEMORY_SERVER_1_START_ADDR then 0 else 1)"

text \<open>
  \<^verbatim>\<open>flush_data()\<close>. The transport is the collaborator \<^verbatim>\<open>syscall(RDMA_WRITE, id, addr, len)\<close>:
  \<open>status\<close> gives the \<^verbatim>\<open>long\<close> value it returns for a request, and \<open>wire\<close> is the list of
  requests (server, local byte address, byte length) made so far. \<^verbatim>\<open>GrainBytes\<close> is a
  static of \<^verbatim>\<open>HeapRegion\<close> set once at start-up and is a parameter.

  The source stores the result of \<^verbatim>\<open>syscall\<close> in \<^verbatim>\<open>int ret\<close> and tests \<^verbatim>\<open>ret\<close>: the
  conversion from \<^verbatim>\<open>long\<close> to \<^verbatim>\<open>int\<close> keeps the low 32 bits, read as a signed number.
\<close>

definition long_to_int :: "int \<Rightarrow> int" where
  "long_to_int x = (x + 2 ^ 31) mod 2 ^ 32 - 2 ^ 31"

definition flush_data ::
  "nat \<Rightarrow> nat \<Rightarrow> (int \<Rightarrow> nat \<Rightarrow> nat \<Rightarrow> int) \<Rightarrow> (int \<times> nat \<times> nat) list \<Rightarrow> heap_region
   \<Rightarrow> fatal + (heap_region \<times> (int \<times> nat \<times> nat) list)" where
  "flush_data MEMORY_SERVER_1_START_ADDR GrainBytes status wire r =
     (let target_mem_id = region_to_memory_server_mapping MEMORY_SERVER_1_START_ADDR r;
          ret = long_to_int (status target_mem_id (HeapWordSize * r_bottom r) GrainBytes);
          wire' = wire @ [(target_mem_id, HeapWordSize * r_bottom r, GrainBytes)]
      in if ret \<noteq> 0 then Inl (GuaranteeFailed '' RDMA write failed.'')
         else Inr (r, wire'))"

subsection \<open>Statement helpers for the region operations\<close>

text \<open>
  In the words of the specification: a transition to type \<open>to\<close> reports exactly one event
  to the tracer, and reports it before the type is changed, so the event carries the type
  that the region had before the operation as its source type.
\<close>

definition emits_one_event_before :: "region_type \<Rightarrow> heap_region \<Rightarrow> heap_region \<Rightarrow> bool" where
  "emits_one_event_before to r r' =
     (events r' = events r @
        [\<lparr>ev_index = hrm_index r, ev_from = r_type r, ev_to = to,
          ev_start = HeapWordSize * r_bottom r, ev_used = used r\<rparr>]
      \<and> r_type r' = to)"

text \<open>A survivor region holding five words, outside the collection set, and an old one.\<close>

definition example_region :: heap_region where
  "example_region =
     \<lparr>hrm_index = 3, r_bottom = 0, r_top = 5, r_end = 64, compaction_top = 0,
      r_type = Survivor, humongous_start_region = None, in_cset = False,
      young_index_in_cset = 2, surv_rate_group = Some 1, age_index = 0,
      pre_dummy_top = None, rem_set = [7, 9], prev_marked_bytes = 16,
      next_marked_bytes = 24, prev_top_at_mark_start = 2, next_top_at_mark_start = 4,
      bot_calls = [], events = []\<rparr>"

definition example_old_region :: heap_region where
  "example_old_region = example_region\<lparr>r_type := Old\<rparr>"

section \<open>Objects, the mark bitmap and the walk over marked objects (memory server)\<close>

text \<open>
  The heap is a word-addressed memory. Modelled from the spec: the accessors of
  \<^verbatim>\<open>oopDesc\<close> are declared in oop.hpp and defined in the absent oop.inline.hpp. An object
  at address \<open>obj\<close> has its mark word at \<open>obj\<close> and its class word at \<open>obj + 1\<close>. The
  forwarding address is stored in the header (the mark word) and \<^verbatim>\<open>NULL\<close> is the word
  \<open>0\<close>: a header without a forwarding address, as \<^verbatim>\<open>init_mark_raw\<close> writes it, decodes
  to \<^verbatim>\<open>NULL\<close>. The size of an object and the offsets of its reference fields are
  functions \<open>ksize\<close> and \<open>koops\<close> of its class word: the class metadata is an external
  collaborator and a parameter of the model.
\<close>

type_synonym heap = "nat \<Rightarrow> nat"

definition forwardee :: "heap \<Rightarrow> nat \<Rightarrow> nat" where
  "forwardee h obj = h obj"

definition forward_to :: "nat \<Rightarrow> nat \<Rightarrow> heap \<Rightarrow> heap" where
  "forward_to obj p h = h(obj := p)"

definition init_mark_raw :: "nat \<Rightarrow> heap \<Rightarrow> heap" where
  "init_mark_raw obj h = h(obj := 0)"

definition klass :: "heap \<Rightarrow> nat \<Rightarrow> nat" where
  "klass h obj = h (obj + 1)"

definition oop_size :: "(nat \<Rightarrow> nat) \<Rightarrow> heap \<Rightarrow> nat \<Rightarrow> nat" where
  "oop_size ksize h obj = ksize (klass h obj)"

text \<open>
  \<^verbatim>\<open>Copy::aligned_conjoint_words(from, to, count)\<close>: a copy of \<open>count\<close> words that is
  safe for overlapping ranges, so every target word receives the old content of its
  source word.
\<close>

definition aligned_conjoint_words :: "nat \<Rightarrow> nat \<Rightarrow> nat \<Rightarrow> heap \<Rightarrow> heap" where
  "aligned_conjoint_words from to count h =
     (\<lambda>a. if to \<le> a \<and> a < to + count then h (from + (a - to)) else h a)"

text \<open>\<^verbatim>\<open>G1FullGCCompactTask::G1CompactRegionClosure::apply(oop obj)\<close>.\<close>

definition G1CompactRegionClosure_apply ::
  "(nat \<Rightarrow> nat) \<Rightarrow> heap \<Rightarrow> nat \<Rightarrow> fatal + (nat \<times> heap)" where
  "G1CompactRegionClosure_apply ksize h obj =
     (let size = oop_size ksize h obj;
          destination = forwardee h obj
      in if destination = 0 then Inr (size, h)
         else if obj = destination
         then Inl (AssertFailed ''everything in this pass should be moving'')
         else
           (let h1 = aligned_conjoint_words obj destination size h;
                h2 = init_mark_raw destination h1
            in if klass h2 destination = 0 then Inl (AssertFailed ''should have a class'')
               else Inr (size, h2)))"

text \<open>
  Modelled from the spec: \<^verbatim>\<open>G1CMBitMap::get_next_marked_addr(addr, limit)\<close> (the bitmap's
  inline header is absent) returns the first marked address in \<open>[addr, limit)\<close>, or
  \<open>limit\<close> when there is none. The bitmap has one bit per heap word.
\<close>

function get_next_marked_addr :: "(nat \<Rightarrow> bool) \<Rightarrow> nat \<Rightarrow> nat \<Rightarrow> nat" where
  "get_next_marked_addr bitmap addr limit =
     (if addr < limit
      then (if bitmap addr then addr else get_next_marked_addr bitmap (Suc addr) limit)
      else limit)"
  by pat_completeness auto
termination
  by (relation "measure (\<lambda>(bitmap, addr, limit). limit - addr)") auto

declare get_next_marked_addr.simps [simp del]

text \<open>
  The loop of \<^verbatim>\<open>apply_to_marked_objects(bitmap, closure)\<close>, from \<open>next_addr\<close> up to
  \<open>limit\<close>. The closure has a state of its own (for the copy closure, the heap); it
  returns the size of the object or fails. The loop does not return when a closure keeps
  returning size \<open>0\<close>; the result is \<open>None\<close> then.
\<close>

partial_function (option) apply_to_marked_objects_from ::
  "('s \<Rightarrow> nat \<Rightarrow> fatal + (nat \<times> 's)) \<Rightarrow> (nat \<Rightarrow> bool) \<Rightarrow> nat \<Rightarrow> nat \<Rightarrow> 's
   \<Rightarrow> (fatal + 's) option" where
  "apply_to_marked_objects_from closure bitmap limit next_addr st =
     (if next_addr < limit
      then (if bitmap next_addr
            then (case closure st next_addr of
                    Inl e \<Rightarrow> Some (Inl e)
                  | Inr (sz, st') \<Rightarrow>
                      apply_to_marked_objects_from closure bitmap limit (next_addr + sz) st')
            else apply_to_marked_objects_from closure bitmap limit
                   (get_next_marked_addr bitmap next_addr limit) st)
      else if next_addr = limit then Some (Inr st)
      else Some (Inl (AssertFailed ''Should stop the scan at the limit.'')))"

declare apply_to_marked_objects_from.simps [code]

definition scan_limit :: "heap_region \<Rightarrow> nat" where
  "scan_limit r = r_top r"

definition apply_to_marked_objects ::
  "('s \<Rightarrow> nat \<Rightarrow> fatal + (nat \<times> 's)) \<Rightarrow> (nat \<Rightarrow> bool) \<Rightarrow> heap_region \<Rightarrow> 's
   \<Rightarrow> (fatal + 's) option" where
  "apply_to_marked_objects closure bitmap r st =
     apply_to_marked_objects_from closure bitmap (scan_limit r) (r_bottom r) st"

section \<open>The block offset table (g1SemeruBlockOffsetTable.cpp)\<close>

definition check :: "bool \<Rightarrow> string \<Rightarrow> (fatal + 'a) \<Rightarrow> fatal + 'a" where
  "check b msg k = (if b then k else Inl (AssertFailed msg))"

fun checks :: "(bool \<times> string) list \<Rightarrow> (fatal + 'a) \<Rightarrow> fatal + 'a" where
  "checks [] k = k"
| "checks ((b, msg) # cs) k = (if b then checks cs k else Inl (AssertFailed msg))"

definition guarantee :: "bool \<Rightarrow> string \<Rightarrow> (fatal + 'a) \<Rightarrow> fatal + 'a" where
  "guarantee b msg k = (if b then k else Inl (GuaranteeFailed msg))"

text \<open>
  \<^verbatim>\<open>BOTConstants\<close> is declared in the absent blockOffsetTable.hpp; its constants are
  parameters of the model. \<open>N_words\<close> is the number of heap words of a card. Entries of
  at least \<open>N_words\<close> mean: go back by \<open>Base ^ (entry - N_words)\<close> cards, with
  \<open>Base = 2 ^ LogBase\<close>; the comments of the source and the specification use
  \<open>Base = 8\<close>.
\<close>

record bot_constants =
  LogN_words :: nat
  LogBase :: nat
  N_powers :: nat

definition N_words :: "bot_constants \<Rightarrow> nat" where
  "N_words c = 2 ^ LogN_words c"

definition power_to_cards_back :: "bot_constants \<Rightarrow> nat \<Rightarrow> nat" where
  "power_to_cards_back c i = 2 ^ (LogBase c * i)"

definition entry_to_cards_back :: "bot_constants \<Rightarrow> nat \<Rightarrow> nat" where
  "entry_to_cards_back c entry = power_to_cards_back c (entry - N_words c)"

text \<open>
  The table (\<^verbatim>\<open>_reserved\<close>, \<^verbatim>\<open>_offset_array\<close>) together with the cursor of the part
  of one region (\<^verbatim>\<open>_next_offset_threshold\<close>, \<^verbatim>\<open>_next_offset_index\<close>). Entries are
  \<^verbatim>\<open>u_char\<close>: a value is reduced modulo 256 when it is stored.
\<close>

record bot_state =
  reserved_start :: nat
  reserved_end :: nat
  offset_array :: "nat \<Rightarrow> nat"
  next_offset_threshold :: nat
  next_offset_index :: nat
  object_can_span :: bool

text \<open>
  Modelled from the spec: the accessors of the table are defined in the absent
  g1SemeruBlockOffsetTable.inline.hpp; \<open>indexFor\<close> and \<open>addressFor\<close> are pure
  arithmetic on the card size, and storing a range of entries is a \<^verbatim>\<open>memset\<close>.
\<close>

definition index_for :: "bot_constants \<Rightarrow> bot_state \<Rightarrow> nat \<Rightarrow> nat" where
  "index_for c bs p = pointer_delta p (reserved_start bs) div N_words c"

definition address_for_index :: "bot_constants \<Rightarrow> bot_state \<Rightarrow> nat \<Rightarrow> nat" where
  "address_for_index c bs index = reserved_start bs + index * N_words c"

definition set_offset_array :: "nat \<Rightarrow> nat \<Rightarrow> bot_state \<Rightarrow> bot_state" where
  "set_offset_array index offset bs =
     bs\<lparr>offset_array := (offset_array bs)(index := offset mod 256)\<rparr>"

definition set_offset_array_range :: "nat \<Rightarrow> nat \<Rightarrow> nat \<Rightarrow> bot_state \<Rightarrow> bot_state" where
  "set_offset_array_range left right offset bs =
     bs\<lparr>offset_array :=
          (\<lambda>k. if left \<le> k \<and> k \<le> right then offset mod 256 else offset_array bs k)\<rparr>"

definition set_offset_array_delta ::
  "bot_constants \<Rightarrow> nat \<Rightarrow> nat \<Rightarrow> nat \<Rightarrow> bot_state \<Rightarrow> fatal + bot_state" where
  "set_offset_array_delta c index high low bs =
     check (high \<ge> low) ''addresses out of order''
       (check (pointer_delta high low \<le> N_words c) ''offset too large''
          (Inr (set_offset_array index (pointer_delta high low) bs)))"

definition is_in_semeru_reserved :: "bot_state \<Rightarrow> nat \<Rightarrow> bool" where
  "is_in_semeru_reserved bs p = (reserved_start bs \<le> p \<and> p < reserved_end bs)"

text \<open>\<^verbatim>\<open>G1SemeruBlockOffsetTable::is_card_boundary\<close>.\<close>

definition is_card_boundary :: "bot_constants \<Rightarrow> bot_state \<Rightarrow> nat \<Rightarrow> bool" where
  "is_card_boundary c bs p = (pointer_delta p (reserved_start bs) mod N_words c = 0)"

text \<open>
  \<^verbatim>\<open>check_all_cards(start_card, end_card)\<close>; the loop over the cards
  \<open>start_card + 1 .. end_card\<close> is \<open>check_cards\<close>. A back skip beyond card \<open>0\<close> wraps
  around in the source and reads the table out of range; the model fails there.
\<close>

fun check_cards :: "bot_constants \<Rightarrow> bot_state \<Rightarrow> nat \<Rightarrow> nat list \<Rightarrow> fatal + unit" where
  "check_cards c bs start_card [] = Inr ()"
| "check_cards c bs start_card (k # ks) =
     (let entry = offset_array bs k
      in guarantee (\<not> (k - start_card > power_to_cards_back c 1) \<or> entry > N_words c)
           ''Should be in logarithmic region''
        (check (entry \<ge> N_words c) ''Precondition''
        (let backskip = entry_to_cards_back c entry
         in check (backskip \<le> k) ''index out of range''
           (let landing_card = k - backskip
            in guarantee (landing_card \<ge> start_card - 1) ''Inv''
              (if landing_card \<ge> start_card
               then guarantee (offset_array bs landing_card \<le> entry) ''Monotonicity''
                      (check_cards c bs start_card ks)
               else guarantee (landing_card = start_card - 1) ''Tautology''
                      (guarantee (offset_array bs landing_card \<le> N_words c)
                         ''landing card offset''
                         (check_cards c bs start_card ks)))))))"

definition check_all_cards :: "bot_constants \<Rightarrow> bot_state \<Rightarrow> nat \<Rightarrow> nat \<Rightarrow> fatal + unit" where
  "check_all_cards c bs start_card end_card =
     (if end_card < start_card then Inr ()
      else guarantee (offset_array bs start_card = N_words c) ''Wrong value in second card''
             (check_cards c bs start_card [Suc start_card ..< Suc end_card]))"

text \<open>
  The loop of \<^verbatim>\<open>set_remainder_to_point_to_start_incl\<close> over the powers \<open>i\<close>, with the
  running \<^verbatim>\<open>start_card_for_region\<close>; it returns the final \<^verbatim>\<open>start_card_for_region\<close>.
\<close>

function set_remainder_loop ::
  "bot_constants \<Rightarrow> nat \<Rightarrow> nat \<Rightarrow> nat \<Rightarrow> nat \<Rightarrow> bot_state \<Rightarrow> nat \<times> bot_state" where
  "set_remainder_loop c start_card end_card i start_card_for_region bs =
     (if i < N_powers c
      then (let reach = start_card - 1 + (power_to_cards_back c (i + 1) - 1);
                offset = N_words c + i
            in if reach \<ge> end_card
               then (reach + 1, set_offset_array_range start_card_for_region end_card offset bs)
               else set_remainder_loop c start_card end_card (i + 1) (reach + 1)
                      (set_offset_array_range start_card_for_region reach offset bs))
      else (start_card_for_region, bs))"
  by pat_completeness auto
termination
  by (relation "measure (\<lambda>(c, start_card, end_card, i, scfr, bs). N_powers c - i)") auto

declare set_remainder_loop.simps [simp del]

definition set_remainder_to_point_to_start_incl ::
  "bot_constants \<Rightarrow> heap_region \<Rightarrow> nat \<Rightarrow> nat \<Rightarrow> bot_state \<Rightarrow> fatal + bot_state" where
  "set_remainder_to_point_to_start_incl c sp start_card end_card bs =
     (if start_card > end_card then Inr bs
      else
        check (start_card > index_for c bs (r_bottom sp)) ''Cannot be first card''
       (check (offset_array bs (start_card - 1) \<le> N_words c)
          ''Offset card has an unexpected value''
       (case set_remainder_loop c start_card end_card 0 start_card bs of
          (start_card_for_region, bs') \<Rightarrow>
            check (start_card_for_region > end_card) ''Sanity check''
              (case check_all_cards c bs' start_card end_card of
                 Inl e \<Rightarrow> Inl e
               | Inr u \<Rightarrow> Inr bs'))))"

definition set_remainder_to_point_to_start ::
  "bot_constants \<Rightarrow> heap_region \<Rightarrow> nat \<Rightarrow> nat \<Rightarrow> bot_state \<Rightarrow> fatal + bot_state" where
  "set_remainder_to_point_to_start c sp start end bs =
     (if start \<ge> end then Inr bs
      else
        (let start_card = index_for c bs start;
             end_card = index_for c bs (end - 1)
         in check (start = address_for_index c bs start_card) ''Precondition''
           (check (end = address_for_index c bs end_card + N_words c) ''Precondition''
              (set_remainder_to_point_to_start_incl c sp start_card end_card bs))))"

text \<open>
  \<^verbatim>\<open>alloc_block_work(threshold_, index_, blk_start, blk_end)\<close>: the result is the new
  threshold, the new index and the table. The assertions at its end are
  \<open>alloc_block_work_post\<close>.
\<close>

definition alloc_block_work_post ::
  "bot_constants \<Rightarrow> bot_state \<Rightarrow> nat \<Rightarrow> nat \<Rightarrow> nat \<Rightarrow> bool" where
  "alloc_block_work_post c bs orig_index end_index blk_start =
     (let start_index = index_for c bs blk_start;
          boundary = address_for_index c bs start_index
      in ((offset_array bs orig_index = 0 \<and> blk_start = boundary)
          \<or> (offset_array bs orig_index > 0 \<and> offset_array bs orig_index \<le> N_words c))
       \<and> list_all (\<lambda>j. offset_array bs j > 0
                       \<and> offset_array bs j \<le> (N_words c + N_powers c - 1) mod 256)
            [Suc orig_index ..< Suc end_index])"

definition alloc_block_work ::
  "bot_constants \<Rightarrow> heap_region \<Rightarrow> nat \<Rightarrow> nat \<Rightarrow> nat \<Rightarrow> nat \<Rightarrow> bot_state
   \<Rightarrow> fatal + (nat \<times> nat \<times> bot_state)" where
  "alloc_block_work c sp threshold index blk_start blk_end bs =
     checks
       [(blk_start \<noteq> 0 \<and> blk_end > blk_start, ''phantom block''),
        (blk_end > threshold, ''should be past threshold''),
        (blk_start \<le> threshold, ''blk_start should be at or before threshold''),
        (pointer_delta threshold blk_start \<le> N_words c,
         ''offset should be <= BlockOffsetSharedArray::N''),
        (is_in_semeru_reserved bs blk_start, ''reference must be into the heap''),
        (is_in_semeru_reserved bs (blk_end - 1), ''limit must be within the heap''),
        (threshold = reserved_start bs + index * N_words c,
         ''index must agree with threshold'')]
       (case set_offset_array_delta c index threshold blk_start bs of
          Inl e \<Rightarrow> Inl e
        | Inr bs1 \<Rightarrow>
           (let end_index = index_for c bs1 (blk_end - 1)
            in case (if index + 1 \<le> end_index
                     then (let rem_st = address_for_index c bs1 (index + 1);
                               rem_end = address_for_index c bs1 end_index + N_words c
                           in set_remainder_to_point_to_start c sp rem_st rem_end bs1)
                     else Inr bs1) of
                 Inl e \<Rightarrow> Inl e
               | Inr bs2 \<Rightarrow>
                  (let index' = end_index + 1;
                       threshold' = address_for_index c bs2 end_index + N_words c
                   in checks
                        [(threshold' \<ge> blk_end, ''Incorrect offset threshold''),
                         (alloc_block_work_post c bs2 index end_index blk_start,
                          ''offset array should have been set'')]
                        (Inr (threshold', index', bs2)))))"

text \<open>
  Modelled from the spec: \<^verbatim>\<open>alloc_block(blk_start, blk_end)\<close> (absent inline header) is
  the entry used by the region's allocation; it stamps new entries through
  \<^verbatim>\<open>alloc_block_work\<close> on the part's cursor when the block ends beyond the cached
  threshold, and does nothing otherwise.
\<close>

definition alloc_block ::
  "bot_constants \<Rightarrow> heap_region \<Rightarrow> nat \<Rightarrow> nat \<Rightarrow> bot_state \<Rightarrow> fatal + bot_state" where
  "alloc_block c sp blk_start blk_end bs =
     (if blk_end > next_offset_threshold bs
      then (case alloc_block_work c sp (next_offset_threshold bs) (next_offset_index bs)
                   blk_start blk_end bs of
              Inl e \<Rightarrow> Inl e
            | Inr (threshold, index, bs') \<Rightarrow>
                Inr (bs'\<lparr>next_offset_threshold := threshold, next_offset_index := index\<rparr>))
      else Inr bs)"

text \<open>\<^verbatim>\<open>zero_bottom_entry_raw\<close> and \<^verbatim>\<open>initialize_threshold_raw\<close>.\<close>

definition zero_bottom_entry_raw ::
  "bot_constants \<Rightarrow> heap_region \<Rightarrow> bot_state \<Rightarrow> fatal + bot_state" where
  "zero_bottom_entry_raw c sp bs =
     (let bottom_index = index_for c bs (r_bottom sp)
      in check (address_for_index c bs bottom_index = r_bottom sp) ''Precondition of call''
           (Inr (set_offset_array bottom_index 0 bs)))"

definition initialize_threshold_raw :: "bot_constants \<Rightarrow> heap_region \<Rightarrow> bot_state \<Rightarrow> bot_state" where
  "initialize_threshold_raw c sp bs =
     (let index = index_for c bs (r_bottom sp) + 1
      in bs\<lparr>next_offset_index := index,
            next_offset_threshold := address_for_index c bs index\<rparr>)"

text \<open>
  Modelled from the spec: \<^verbatim>\<open>reset_bot()\<close> of the part (absent inline header) zeroes the
  entry of the bottom card and initialises the cursor.
\<close>

definition part_reset_bot :: "bot_constants \<Rightarrow> heap_region \<Rightarrow> bot_state \<Rightarrow> fatal + bot_state" where
  "part_reset_bot c sp bs =
     (case zero_bottom_entry_raw c sp bs of
        Inl e \<Rightarrow> Inl e
      | Inr bs' \<Rightarrow> Inr (initialize_threshold_raw c sp bs'))"

text \<open>
  \<^verbatim>\<open>set_for_starts_humongous(obj_top, fill_size)\<close>. The humongous object goes from the
  bottom of the region to \<open>obj_top\<close>, which may lie beyond the end of the region, in one
  of the regions that continue it. \<^verbatim>\<open>alloc_block(blk, size)\<close> is
  \<^verbatim>\<open>alloc_block(blk, blk + size)\<close>.
\<close>

definition set_for_starts_humongous ::
  "bot_constants \<Rightarrow> heap_region \<Rightarrow> nat \<Rightarrow> nat \<Rightarrow> bot_state \<Rightarrow> fatal + bot_state" where
  "set_for_starts_humongous c sp obj_top fill_size bs =
     (case part_reset_bot c sp bs of
        Inl e \<Rightarrow> Inl e
      | Inr bs1 \<Rightarrow>
          (case alloc_block c sp (r_bottom sp) obj_top bs1 of
             Inl e \<Rightarrow> Inl e
           | Inr bs2 \<Rightarrow>
               if fill_size > 0 then alloc_block c sp obj_top (obj_top + fill_size) bs2
               else Inr bs2))"

subsection \<open>Blocks of a region (SemeruHeapRegion, inline part)\<close>

text \<open>
  What the block functions read besides the region itself: the heap, the class metadata,
  the previous mark bitmap, the flag \<^verbatim>\<open>ClassUnloadingWithConcurrentMark\<close> and the bottom
  of the humongous start region.
\<close>

record heap_view =
  hv_mem :: heap
  hv_ksize :: "nat \<Rightarrow> nat"
  hv_prev_bitmap :: "nat \<Rightarrow> bool"
  hv_ClassUnloadingWithConcurrentMark :: bool
  hv_humongous_start_bottom :: nat

text \<open>
  Modelled from the spec: \<^verbatim>\<open>is_in\<close>, \<^verbatim>\<open>is_in_reserved\<close> and
  \<^verbatim>\<open>obj_allocated_since_prev_marking\<close> are in absent headers; the used part of a region
  is \<open>[bottom, top)\<close>, its reserved part \<open>[bottom, end)\<close>, and objects at or above the
  previous TAMS are implicitly live.
\<close>

definition is_in :: "heap_region \<Rightarrow> nat \<Rightarrow> bool" where
  "is_in r p = (r_bottom r \<le> p \<and> p < r_top r)"

definition is_in_reserved :: "heap_region \<Rightarrow> nat \<Rightarrow> bool" where
  "is_in_reserved r p = (r_bottom r \<le> p \<and> p < r_end r)"

definition obj_allocated_since_prev_marking :: "heap_region \<Rightarrow> nat \<Rightarrow> bool" where
  "obj_allocated_since_prev_marking r obj = (prev_top_at_mark_start r \<le> obj)"

definition is_open_archive :: "heap_region \<Rightarrow> bool" where
  "is_open_archive r = (r_type r = OpenArchive)"


definition is_continues_humongous :: "heap_region \<Rightarrow> bool" where
  "is_continues_humongous r = (r_type r = ContinuesHumongous)"

definition is_obj_dead :: "heap_view \<Rightarrow> heap_region \<Rightarrow> nat \<Rightarrow> fatal + bool" where
  "is_obj_dead hv r obj =
     check (is_in_reserved r obj) ''Object must be in region''
       (Inr (\<not> obj_allocated_since_prev_marking r obj
             \<and> \<not> hv_prev_bitmap hv obj
             \<and> \<not> is_open_archive r))"

definition block_is_obj :: "heap_view \<Rightarrow> heap_region \<Rightarrow> nat \<Rightarrow> fatal + bool" where
  "block_is_obj hv r p =
     (if \<not> is_in r p
      then check (is_continues_humongous r) ''This case can only happen for humongous regions''
             (Inr (p = hv_humongous_start_bottom hv))
      else if hv_ClassUnloadingWithConcurrentMark hv
      then (case is_obj_dead hv r p of Inl e \<Rightarrow> Inl e | Inr dead \<Rightarrow> Inr (\<not> dead))
      else Inr (p < r_top r))"

definition block_size_using_bitmap :: "heap_view \<Rightarrow> heap_region \<Rightarrow> nat \<Rightarrow> fatal + nat" where
  "block_size_using_bitmap hv r addr =
     check (hv_ClassUnloadingWithConcurrentMark hv)
       ''All blocks should be objects if class unloading is not used''
       (let next = get_next_marked_addr (hv_prev_bitmap hv) addr (prev_top_at_mark_start r)
        in check (next > addr) ''must get the next live object''
             (Inr (pointer_delta next addr)))"

definition block_size :: "heap_view \<Rightarrow> heap_region \<Rightarrow> nat \<Rightarrow> fatal + nat" where
  "block_size hv r addr =
     (if addr = r_top r then Inr (pointer_delta (r_end r) addr)
      else (case block_is_obj hv r addr of
              Inl e \<Rightarrow> Inl e
            | Inr True \<Rightarrow> Inr (oop_size (hv_ksize hv) (hv_mem hv) addr)
            | Inr False \<Rightarrow> block_size_using_bitmap hv r addr))"

subsection \<open>Looking up the start of a block\<close>

text \<open>
  Modelled from the spec: \<^verbatim>\<open>block_at_or_preceding\<close> (absent inline header) is the
  lookup that the comment of \<^verbatim>\<open>set_remainder_to_point_to_start\<close> describes: find the
  index for the address, read the entry, convert an entry of at least \<open>N_words\<close> to a
  back skip, move back that many cards and repeat with the new entry; an entry below
  \<open>N_words\<close> is the distance in words from the card's first word back to the start of
  the block. The index is capped by the last card that has been stamped. A back skip
  beyond card \<open>0\<close> fails (an index out of range).
\<close>

function block_at_or_preceding_loop ::
  "bot_constants \<Rightarrow> bot_state \<Rightarrow> nat \<Rightarrow> nat \<Rightarrow> nat \<Rightarrow> fatal + nat" where
  "block_at_or_preceding_loop c bs q index offset =
     (if offset \<ge> N_words c
      then (let n_cards_back = entry_to_cards_back c offset
            in if n_cards_back > index then Inl (AssertFailed ''index out of range'')
               else block_at_or_preceding_loop c bs (q - N_words c * n_cards_back)
                      (index - n_cards_back) (offset_array bs (index - n_cards_back)))
      else Inr (q - offset))"
  by pat_completeness auto
termination
proof (relation "measure (\<lambda>(c, bs, q, index, offset). index)")
  show "wf (measure (\<lambda>(c, bs, q, index, offset). index))"
    by simp
next
  fix c :: bot_constants and bs :: bot_state and q index offset n_cards_back :: nat
  assume "n_cards_back = entry_to_cards_back c offset" and "\<not> n_cards_back > index"
  moreover have "0 < entry_to_cards_back c offset"
    by (simp add: entry_to_cards_back_def power_to_cards_back_def)
  ultimately have "index - n_cards_back < index"
    by linarith
  then show "((c, bs, q - N_words c * n_cards_back, index - n_cards_back,
               offset_array bs (index - n_cards_back)), (c, bs, q, index, offset))
             \<in> measure (\<lambda>(c, bs, q, index, offset). index)"
    by simp
qed

declare block_at_or_preceding_loop.simps [simp del]

definition block_at_or_preceding ::
  "bot_constants \<Rightarrow> heap_region \<Rightarrow> bot_state \<Rightarrow> nat \<Rightarrow> bool \<Rightarrow> nat \<Rightarrow> fatal + nat" where
  "block_at_or_preceding c sp bs addr has_max_index max_index =
     check (object_can_span bs \<or> offset_array bs (index_for c bs (r_bottom sp)) = 0)
       ''Object crossed region boundary''
       (let index0 = index_for c bs addr;
            index = (if has_max_index then min index0 max_index else index0);
            q = address_for_index c bs index
        in block_at_or_preceding_loop c bs q index (offset_array bs index))"

text \<open>
  Modelled from the spec: \<^verbatim>\<open>forward_to_block_containing_addr_const(q, n, addr)\<close>
  (absent inline header) walks forward over the blocks from the block \<open>[q, n)\<close> until
  the block that contains \<open>addr\<close>; it stops at a block whose class word is not yet
  installed (an allocation in progress), and answers \<open>top\<close> for an address at or above
  \<open>top\<close>. The walk does not return if a block of size \<open>0\<close> is met.
\<close>

partial_function (option) forward_const_loop ::
  "heap_view \<Rightarrow> heap_region \<Rightarrow> nat \<Rightarrow> nat \<Rightarrow> nat \<Rightarrow> (fatal + nat) option" where
  "forward_const_loop hv sp q n addr =
     (if n \<le> addr
      then (if klass (hv_mem hv) n = 0 then Some (Inr n)
            else (case block_size hv sp n of
                    Inl e \<Rightarrow> Some (Inl e)
                  | Inr sz \<Rightarrow> forward_const_loop hv sp n (n + sz) addr))
      else if \<not> q \<le> n then Some (Inl (AssertFailed ''wrong order for q and addr''))
      else Some (Inr q))"

declare forward_const_loop.simps [code]

definition forward_to_block_containing_addr_const ::
  "heap_view \<Rightarrow> heap_region \<Rightarrow> nat \<Rightarrow> nat \<Rightarrow> nat \<Rightarrow> (fatal + nat) option" where
  "forward_to_block_containing_addr_const hv sp q n addr =
     (if addr \<ge> r_top sp then Some (Inr (r_top sp))
      else forward_const_loop hv sp q n addr)"

text \<open>
  \<^verbatim>\<open>forward_to_block_containing_addr_slow(q, n, addr)\<close>. Its inner loop walks the blocks
  up to the next card boundary and returns \<open>Inl q\<close> for the early return at a block
  without class word and \<open>Inr (q, n)\<close> otherwise; the outer loop restamps the table with
  \<^verbatim>\<open>alloc_block_work\<close> on a local cursor.
\<close>

partial_function (option) slow_inner_loop ::
  "heap_view \<Rightarrow> heap_region \<Rightarrow> nat \<Rightarrow> nat \<Rightarrow> nat \<Rightarrow> (fatal + (nat + nat \<times> nat)) option" where
  "slow_inner_loop hv sp next_boundary q n =
     (if n \<le> next_boundary
      then (if klass (hv_mem hv) n = 0 then Some (Inr (Inl n))
            else (case block_size hv sp n of
                    Inl e \<Rightarrow> Some (Inl e)
                  | Inr sz \<Rightarrow> slow_inner_loop hv sp next_boundary n (n + sz)))
      else Some (Inr (Inr (q, n))))"

partial_function (option) slow_outer_loop ::
  "bot_constants \<Rightarrow> heap_view \<Rightarrow> heap_region \<Rightarrow> nat \<Rightarrow> nat \<Rightarrow> nat \<Rightarrow> nat \<Rightarrow> nat \<Rightarrow> bot_state
   \<Rightarrow> (fatal + (nat + nat \<times> nat) \<times> bot_state) option" where
  "slow_outer_loop c hv sp addr next_boundary next_index q n bs =
     (if next_boundary < addr
      then (case slow_inner_loop hv sp next_boundary q n of
              None \<Rightarrow> None
            | Some (Inl e) \<Rightarrow> Some (Inl e)
            | Some (Inr (Inl q')) \<Rightarrow> Some (Inr (Inl q', bs))
            | Some (Inr (Inr (q', n'))) \<Rightarrow>
                (if \<not> (q' \<le> next_boundary \<and> n' > next_boundary)
                 then Some (Inl (AssertFailed ''Consequence of loop''))
                 else (case alloc_block_work c sp next_boundary next_index q' n' bs of
                         Inl e \<Rightarrow> Some (Inl e)
                       | Inr (next_boundary', next_index', bs') \<Rightarrow>
                           slow_outer_loop c hv sp addr next_boundary' next_index' q' n' bs')))
      else Some (Inr (Inr (q, n), bs)))"

declare slow_inner_loop.simps [code] slow_outer_loop.simps [code]

definition forward_to_block_containing_addr_slow ::
  "bot_constants \<Rightarrow> heap_view \<Rightarrow> heap_region \<Rightarrow> bot_state \<Rightarrow> nat \<Rightarrow> nat \<Rightarrow> nat
   \<Rightarrow> (fatal + nat \<times> bot_state) option" where
  "forward_to_block_containing_addr_slow c hv sp bs q n addr =
     (let n_index = index_for c bs n;
          next_index = index_for c bs n + (if is_card_boundary c bs n then 0 else 1);
          next_boundary = address_for_index c bs n_index
                          + (if n_index = next_index then 0 else N_words c)
      in if \<not> next_boundary \<le> reserved_end bs
         then Some (Inl (AssertFailed ''next_boundary is beyond the end of the covered region''))
         else if addr \<ge> r_top sp then Some (Inr (r_top sp, bs))
         else (case slow_outer_loop c hv sp addr next_boundary next_index q n bs of
                 None \<Rightarrow> None
               | Some (Inl e) \<Rightarrow> Some (Inl e)
               | Some (Inr (Inl q', bs')) \<Rightarrow> Some (Inr (q', bs'))
               | Some (Inr (Inr (q', n'), bs')) \<Rightarrow>
                   (case forward_to_block_containing_addr_const hv sp q' n' addr of
                      None \<Rightarrow> None
                    | Some (Inl e) \<Rightarrow> Some (Inl e)
                    | Some (Inr q'') \<Rightarrow> Some (Inr (q'', bs')))))"

text \<open>
  Modelled from the spec: \<^verbatim>\<open>forward_to_block_containing_addr(q, addr)\<close> and
  \<^verbatim>\<open>block_start(addr)\<close> (absent inline header). The block found by the table is
  returned when its class word is not installed or when it contains \<open>addr\<close>; otherwise
  the slow path walks forward from it. \<^verbatim>\<open>block_start\<close> answers \<^verbatim>\<open>NULL\<close> (\<open>None\<close>) for an
  address outside \<open>[bottom, end)\<close>. The result carries the table, which the slow path
  may have restamped.
\<close>

definition forward_to_block_containing_addr ::
  "bot_constants \<Rightarrow> heap_view \<Rightarrow> heap_region \<Rightarrow> bot_state \<Rightarrow> nat \<Rightarrow> nat
   \<Rightarrow> (fatal + nat \<times> bot_state) option" where
  "forward_to_block_containing_addr c hv sp bs q addr =
     (if klass (hv_mem hv) q = 0 then Some (Inr (q, bs))
      else (case block_size hv sp q of
              Inl e \<Rightarrow> Some (Inl e)
            | Inr sz \<Rightarrow>
               (let n = q + sz
                in case (if n \<le> addr
                         then forward_to_block_containing_addr_slow c hv sp bs q n addr
                         else Some (Inr (q, bs))) of
                     None \<Rightarrow> None
                   | Some (Inl e) \<Rightarrow> Some (Inl e)
                   | Some (Inr (q', bs')) \<Rightarrow>
                       (if q' \<le> addr then Some (Inr (q', bs'))
                        else Some (Inl (AssertFailed ''wrong order for current and arg''))))))"

definition block_start ::
  "bot_constants \<Rightarrow> heap_view \<Rightarrow> heap_region \<Rightarrow> bot_state \<Rightarrow> nat
   \<Rightarrow> (fatal + nat option \<times> bot_state) option" where
  "block_start c hv sp bs addr =
     (if addr \<ge> r_bottom sp \<and> addr < r_end sp
      then (case block_at_or_preceding c sp bs addr True (next_offset_index bs - 1) of
              Inl e \<Rightarrow> Some (Inl e)
            | Inr q \<Rightarrow>
               (case forward_to_block_containing_addr c hv sp bs q addr of
                  None \<Rightarrow> None
                | Some (Inl e) \<Rightarrow> Some (Inl e)
                | Some (Inr (q', bs')) \<Rightarrow> Some (Inr (Some q', bs'))))
      else Some (Inr (None, bs)))"

text \<open>
  \<^verbatim>\<open>verify()\<close>: \<open>verify_walk\<close> is the inner loop for a card with a direct offset,
  \<open>verify_cards\<close> the loop over the cards \<open>start_card .. end_card - 1\<close>.
\<close>

function verify_walk :: "heap_view \<Rightarrow> heap_region \<Rightarrow> nat \<Rightarrow> nat \<Rightarrow> fatal + unit" where
  "verify_walk hv sp card_address obj_end =
     (if obj_end < card_address
      then (case block_size hv sp obj_end of
              Inl e \<Rightarrow> Inl e
            | Inr obj_size \<Rightarrow>
                (if obj_end + obj_size > obj_end \<and> obj_end + obj_size \<le> r_top sp
                 then verify_walk hv sp card_address (obj_end + obj_size)
                 else Inl (GuaranteeFailed ''Invalid object end.'')))
      else Inr ())"
  by pat_completeness auto
termination
  by (relation "measure (\<lambda>(hv, sp, card_address, obj_end). card_address - obj_end)") auto

declare verify_walk.simps [simp del]

fun verify_cards ::
  "bot_constants \<Rightarrow> heap_view \<Rightarrow> heap_region \<Rightarrow> bot_state \<Rightarrow> nat \<Rightarrow> nat list \<Rightarrow> fatal + unit" where
  "verify_cards c hv sp bs start_card [] = Inr ()"
| "verify_cards c hv sp bs start_card (current_card # cards) =
     (let entry = offset_array bs current_card
      in if entry < N_words c
         then (let card_address = address_for_index c bs current_card
               in case verify_walk hv sp card_address (card_address - entry) of
                    Inl e \<Rightarrow> Inl e
                  | Inr u \<Rightarrow> verify_cards c hv sp bs start_card cards)
         else (let backskip = entry_to_cards_back c entry
               in guarantee (backskip \<ge> 1) ''Must be going back at least one card.''
                 (let max_backskip = current_card - start_card
                  in guarantee (backskip \<le> max_backskip)
                       ''Going backwards beyond the start_card.''
                    (guarantee (address_for_index c bs (current_card - backskip) \<ge> r_bottom sp)
                       ''Going backwards beyond bottom of the region''
                       (verify_cards c hv sp bs start_card cards)))))"

definition verify :: "bot_constants \<Rightarrow> heap_view \<Rightarrow> heap_region \<Rightarrow> bot_state \<Rightarrow> fatal + unit" where
  "verify c hv sp bs =
     check (r_bottom sp < r_top sp) ''Only non-empty regions should be verified.''
       (let start_card = index_for c bs (r_bottom sp);
            end_card = index_for c bs (r_top sp - 1)
        in verify_cards c hv sp bs start_card [start_card ..< end_card])"

subsection \<open>Sequences of recorded blocks\<close>

text \<open>
  A sequence of \<^verbatim>\<open>alloc_block(start, end)\<close> calls on the part of one region, stopping at
  the first failure.
\<close>

fun alloc_blocks ::
  "bot_constants \<Rightarrow> heap_region \<Rightarrow> (nat \<times> nat) list \<Rightarrow> bot_state \<Rightarrow> fatal + bot_state" where
  "alloc_blocks c sp [] bs = Inr bs"
| "alloc_blocks c sp ((blk_start, blk_end) # blks) bs =
     (case alloc_block c sp blk_start blk_end bs of
        Inl e \<Rightarrow> Inl e
      | Inr bs' \<Rightarrow> alloc_blocks c sp blks bs')"

text \<open>
  Ranges as bump-pointer allocation produces them: non-empty, the first one starting at
  \<open>a\<close> and each one starting where the one before ends. \<open>blocks_end a blks\<close> is the end
  of the last range (\<open>a\<close> for no range).
\<close>

fun contiguous_blocks :: "nat \<Rightarrow> (nat \<times> nat) list \<Rightarrow> bool" where
  "contiguous_blocks a [] = True"
| "contiguous_blocks a ((s, e) # blks) = (s = a \<and> s < e \<and> contiguous_blocks e blks)"

fun blocks_end :: "nat \<Rightarrow> (nat \<times> nat) list \<Rightarrow> nat" where
  "blocks_end a [] = a"
| "blocks_end a ((s, e) # blks) = blocks_end e blks"

text \<open>
  Ranges as the specification's round-trip property words them: monotonically increasing
  and non-overlapping inside the region \<open>[lo, hi)\<close>.
\<close>

fun increasing_blocks :: "nat \<Rightarrow> nat \<Rightarrow> (nat \<times> nat) list \<Rightarrow> bool" where
  "increasing_blocks lo hi [] = True"
| "increasing_blocks lo hi ((s, e) # blks) =
     (lo \<le> s \<and> s < e \<and> e \<le> hi \<and> increasing_blocks e hi blks)"

subsection \<open>Statement helpers for the block offset table\<close>

text \<open>
  The constraints on the constants: the base of the back skips is at least two, the
  largest entry \<open>N_words + N_powers - 1\<close> fits a \<^verbatim>\<open>u_char\<close>, and there is at least
  one power.
\<close>

definition bot_constants_ok :: "bot_constants \<Rightarrow> bool" where
  "bot_constants_ok c = (0 < LogBase c \<and> 0 < N_powers c \<and> N_words c + N_powers c \<le> 256)"

text \<open>
  The region lies in the reserved range of the table, above address \<open>0\<close>, starts and
  ends on a card boundary, and has no more cards than the largest back skip can cover.
\<close>

definition region_on_cards :: "bot_constants \<Rightarrow> heap_region \<Rightarrow> bot_state \<Rightarrow> bool" where
  "region_on_cards c sp bs =
     (0 < r_bottom sp \<and> reserved_start bs \<le> r_bottom sp \<and> r_bottom sp \<le> r_end sp
      \<and> r_end sp \<le> reserved_end bs
      \<and> (r_bottom sp - reserved_start bs) mod N_words c = 0
      \<and> (r_end sp - r_bottom sp) mod N_words c = 0
      \<and> (r_end sp - r_bottom sp) div N_words c < power_to_cards_back c (N_powers c))"

text \<open>
  The same for the cards from the bottom of the region up to a limit \<open>lim\<close>: the end of
  the region, or, for the region that starts a humongous object, the end of the last
  region that continues it.
\<close>

definition part_on_cards :: "bot_constants \<Rightarrow> heap_region \<Rightarrow> bot_state \<Rightarrow> nat \<Rightarrow> bool" where
  "part_on_cards c sp bs lim =
     (0 < r_bottom sp \<and> reserved_start bs \<le> r_bottom sp \<and> r_bottom sp \<le> lim
      \<and> lim \<le> reserved_end bs
      \<and> (r_bottom sp - reserved_start bs) mod N_words c = 0
      \<and> (lim - r_bottom sp) mod N_words c = 0
      \<and> (lim - r_bottom sp) div N_words c < power_to_cards_back c (N_powers c))"

text \<open>
  Card \<open>k\<close> holds a back-skip code relative to the offset card \<open>idx\<close>: its entry is
  \<open>N_words + j\<close> for the power \<open>j\<close> with \<open>Base ^ j \<le> k - idx < Base ^ (j + 1)\<close>.
  A block that starts at \<open>s\<close> is stamped on the cards \<open>idx .. last_card\<close> when the offset
  card \<open>idx\<close> holds the distance from its first word back to \<open>s\<close> and the cards after
  it hold the back-skip codes relative to \<open>idx\<close>.
\<close>

definition log_stamped :: "bot_constants \<Rightarrow> (nat \<Rightarrow> nat) \<Rightarrow> nat \<Rightarrow> nat \<Rightarrow> bool" where
  "log_stamped c arr idx k =
     (\<exists>j < N_powers c. arr k = N_words c + j
        \<and> power_to_cards_back c j \<le> k - idx \<and> k - idx < power_to_cards_back c (j + 1))"

definition stamped_block :: "bot_constants \<Rightarrow> bot_state \<Rightarrow> nat \<Rightarrow> nat \<Rightarrow> nat \<Rightarrow> bool" where
  "stamped_block c bs s idx last_card =
     (s \<le> address_for_index c bs idx \<and> address_for_index c bs idx - s \<le> N_words c
      \<and> offset_array bs idx = address_for_index c bs idx - s
      \<and> (\<forall>k. idx < k \<and> k \<le> last_card \<longrightarrow> log_stamped c (offset_array bs) idx k))"

definition same_fields :: "bot_state \<Rightarrow> bot_state \<Rightarrow> bool" where
  "same_fields bs' bs =
     (reserved_start bs' = reserved_start bs \<and> reserved_end bs' = reserved_end bs
      \<and> next_offset_threshold bs' = next_offset_threshold bs
      \<and> next_offset_index bs' = next_offset_index bs
      \<and> object_can_span bs' = object_can_span bs)"

text \<open>
  The state of the table after the blocks \<open>blks\<close>, which end at \<open>top\<close>, have been
  recorded: the cursor stands on the first card boundary after the last word allocated,
  the bottom card holds \<open>0\<close>, and every card between the bottom card and the cursor lies
  in the stamped cards of a recorded block that contains the card's first word. An offset
  card holds the full distance \<open>N_words\<close> only for the block at the bottom of the
  region.
\<close>

definition bot_inv ::
  "bot_constants \<Rightarrow> heap_region \<Rightarrow> bot_state \<Rightarrow> (nat \<times> nat) list \<Rightarrow> nat \<Rightarrow> bool" where
  "bot_inv c sp bs blks top_addr =
     (next_offset_threshold bs = address_for_index c bs (next_offset_index bs)
      \<and> next_offset_index bs =
          (if top_addr = r_bottom sp then index_for c bs (r_bottom sp) + 1
           else index_for c bs (top_addr - 1) + 1)
      \<and> offset_array bs (index_for c bs (r_bottom sp)) = 0
      \<and> r_bottom sp \<le> top_addr
      \<and> (\<forall>k. index_for c bs (r_bottom sp) < k \<and> k < next_offset_index bs \<longrightarrow>
            (\<exists>s e idx. (s, e) \<in> set blks \<and> index_for c bs (r_bottom sp) < idx \<and> idx \<le> k
               \<and> stamped_block c bs s idx k \<and> address_for_index c bs k < e
               \<and> (address_for_index c bs idx - s = N_words c \<longrightarrow>
                    s = r_bottom sp \<and> idx = index_for c bs (r_bottom sp) + 1))))"

text \<open>Example data: cards of 64 words, base 8, and a region of 1000 cards.\<close>

definition example_constants :: bot_constants where
  "example_constants = \<lparr>LogN_words = 6, LogBase = 3, N_powers = 14\<rparr>"

definition example_table :: bot_state where
  "example_table =
     \<lparr>reserved_start = 1024, reserved_end = 129024, offset_array = (\<lambda>k. 77),
      next_offset_threshold = 0, next_offset_index = 0, object_can_span = False\<rparr>"

definition example_space :: heap_region where
  "example_space = example_region\<lparr>r_bottom := 1088, r_top := 1300, r_end := 65088\<rparr>"

definition example_blocks :: "(nat \<times> nat) list" where
  "example_blocks = [(1088, 1098), (1098, 1280), (1280, 1300)]"

text \<open>
  The heap holds an object at every recorded range: its class word is installed and the
  size of the block at its start is the length of the range.
\<close>

definition blocks_in_heap :: "heap_view \<Rightarrow> heap_region \<Rightarrow> (nat \<times> nat) list \<Rightarrow> bool" where
  "blocks_in_heap hv sp blks =
     list_all (\<lambda>(s, e). klass (hv_mem hv) s \<noteq> 0 \<and> block_size hv sp s = Inr (e - s)) blks"

text \<open>
  Example heaps: objects at the example ranges (the class word of an object is its size),
  and a region with objects at two ranges with a gap of ten words between them.
\<close>

definition example_view :: heap_view where
  "example_view =
     \<lparr>hv_mem = (\<lambda>a. 0)(1089 := 10, 1099 := 182, 1281 := 20), hv_ksize = (\<lambda>k. k),
      hv_prev_bitmap = (\<lambda>a. False), hv_ClassUnloadingWithConcurrentMark = False,
      hv_humongous_start_bottom = 0\<rparr>"

definition gap_blocks :: "(nat \<times> nat) list" where
  "gap_blocks = [(1088, 1098), (1108, 1140)]"

definition gap_space :: heap_region where
  "gap_space = example_space\<lparr>r_top := 1140\<rparr>"

definition gap_view :: heap_view where
  "gap_view = example_view\<lparr>hv_mem := (\<lambda>a. 0)(1089 := 10, 1109 := 32)\<rparr>"

text \<open>The table of the example after the reset of the part: the bottom card is entered.\<close>

definition gap_bot :: bot_state where
  "gap_bot = example_table\<lparr>offset_array := (\<lambda>k. 77)(1 := 0), next_offset_index := 2,
                            next_offset_threshold := 1152\<rparr>"

text \<open>
  A region of ten cards that starts a humongous object of 1412 words, which ends in the
  third region of ten cards, with a filler of 60 words behind it.
\<close>

definition humongous_space :: heap_region where
  "humongous_space = example_space\<lparr>r_top := 1728, r_end := 1728\<rparr>"

definition humongous_blocks :: "(nat \<times> nat) list" where
  "humongous_blocks = [(1088, 2500), (2500, 2560)]"

section \<open>SuspendibleThreadSet\<close>

text \<open>
  The set is the four static fields and the semaphore. Every member function runs under
  \<^verbatim>\<open>STS_lock\<close>, so the model takes as atomic steps the stretches of code between two
  points where the lock is released: entry and exit of a function, and the
  \<^verbatim>\<open>ml.wait\<close> calls, which release the lock while the thread sleeps. A step of a thread
  that could only sleep (the loop \<^verbatim>\<open>while (_suspend_all) ml.wait(...)\<close> with the flag
  set, the semaphore wait with count zero) is not enabled: \<open>None\<close>.

  Each cooperating thread is at one of three places: outside the set, joined and running
  (\<^verbatim>\<open>is_suspendible_thread()\<close>), or asleep in the wait loop of \<^verbatim>\<open>yield\<close>. The VM thread
  is outside a request, asleep on the semaphore inside \<^verbatim>\<open>synchronize\<close>, or back from
  \<^verbatim>\<open>synchronize\<close>. The counters are \<^verbatim>\<open>uint\<close>: increments wrap at \<open>2 ^ 32\<close>.

  Two fields are bookkeeping of the model, not of the source: \<open>signalled_by\<close> lists the
  threads that called \<^verbatim>\<open>signal()\<close> since the last request started, and \<open>waited\<close> tells
  whether the last request went to the semaphore.
\<close>

datatype thread_at = Outside | Joined | Stopped

datatype requester_at = No_request | On_semaphore | Returned

record sts =
  nthreads :: nat
  nthreads_stopped :: nat
  suspend_all :: bool
  synchronize_wakeup :: nat
  threads :: "thread_at list"
  requester :: requester_at
  signalled_by :: "nat list"
  waited :: bool

definition uint_incr :: "nat \<Rightarrow> nat" where
  "uint_incr x = (x + 1) mod 2 ^ 32"

definition signal :: "nat \<Rightarrow> sts \<Rightarrow> sts" where
  "signal t st = st\<lparr>synchronize_wakeup := synchronize_wakeup st + 1,
                    signalled_by := signalled_by st @ [t]\<rparr>"

definition is_synchronized :: "sts \<Rightarrow> fatal + bool" where
  "is_synchronized st =
     check (nthreads_stopped st \<le> nthreads st) ''invariant''
       (Inr (nthreads_stopped st = nthreads st))"

definition SuspendibleThreadSet_init :: "nat \<Rightarrow> sts" where
  "SuspendibleThreadSet_init n =
     \<lparr>nthreads = 0, nthreads_stopped = 0, suspend_all = False, synchronize_wakeup = 0,
      threads = replicate n Outside, requester = No_request, signalled_by = [],
      waited = False\<rparr>"

definition SuspendibleThreadSet_join :: "nat \<Rightarrow> sts \<Rightarrow> (fatal + sts) option" where
  "SuspendibleThreadSet_join t st =
     (case threads st ! t of
        Stopped \<Rightarrow> None
      | Joined \<Rightarrow> Some (Inl (AssertFailed ''Thread already joined''))
      | Outside \<Rightarrow>
          if suspend_all st then None
          else Some (Inr (st\<lparr>nthreads := uint_incr (nthreads st),
                             threads := (threads st)[t := Joined]\<rparr>)))"

definition SuspendibleThreadSet_leave :: "nat \<Rightarrow> sts \<Rightarrow> (fatal + sts) option" where
  "SuspendibleThreadSet_leave t st =
     (case threads st ! t of
        Stopped \<Rightarrow> None
      | Outside \<Rightarrow> Some (Inl (AssertFailed ''Thread not joined''))
      | Joined \<Rightarrow>
          Some (check (0 < nthreads st) ''Invalid''
            (let st1 = st\<lparr>nthreads := nthreads st - 1, threads := (threads st)[t := Outside]\<rparr>
             in if suspend_all st1 then
                  (case is_synchronized st1 of
                     Inl f \<Rightarrow> Inl f
                   | Inr sync \<Rightarrow> Inr (if sync then signal t st1 else st1))
                else Inr st1)))"

text \<open>
  \<^verbatim>\<open>yield\<close> up to its wait loop. \<open>elapsed\<close> is what the clock gives for
  \<^verbatim>\<open>(now - _suspend_all_start) * 1000.0\<close>; it is read only when the yield completes the
  request and \<^verbatim>\<open>ConcGCYieldTimeout\<close> is positive. Without a request the function
  returns at once.
\<close>

definition SuspendibleThreadSet_yield :: "nat \<Rightarrow> nat \<Rightarrow> nat \<Rightarrow> sts \<Rightarrow> (fatal + sts) option" where
  "SuspendibleThreadSet_yield ConcGCYieldTimeout t elapsed st =
     (case threads st ! t of
        Stopped \<Rightarrow> None
      | Outside \<Rightarrow> Some (Inl (AssertFailed ''Must have joined''))
      | Joined \<Rightarrow>
          if suspend_all st then
            (let st1 = st\<lparr>nthreads_stopped := uint_incr (nthreads_stopped st),
                          threads := (threads st)[t := Stopped]\<rparr>
             in case is_synchronized st1 of
                  Inl f \<Rightarrow> Some (Inl f)
                | Inr sync \<Rightarrow>
                    if sync then
                      (if 0 < ConcGCYieldTimeout then
                         Some (guarantee (elapsed < ConcGCYieldTimeout) ''Long delay''
                                 (Inr (signal t st1)))
                       else Some (Inr (signal t st1)))
                    else Some (Inr st1))
          else Some (Inr st))"

text \<open>The rest of \<^verbatim>\<open>yield\<close>: the thread leaves the wait loop once the flag is down.\<close>

definition SuspendibleThreadSet_yield_wakeup :: "nat \<Rightarrow> sts \<Rightarrow> (fatal + sts) option" where
  "SuspendibleThreadSet_yield_wakeup t st =
     (case threads st ! t of
        Stopped \<Rightarrow>
          if suspend_all st then None
          else Some (check (0 < nthreads_stopped st) ''Invalid''
                 (Inr (st\<lparr>nthreads_stopped := nthreads_stopped st - 1,
                          threads := (threads st)[t := Joined]\<rparr>)))
      | _ \<Rightarrow> None)"

text \<open>\<^verbatim>\<open>synchronize\<close> up to the release of the lock.\<close>

definition SuspendibleThreadSet_synchronize :: "sts \<Rightarrow> (fatal + sts) option" where
  "SuspendibleThreadSet_synchronize st =
     (if requester st = On_semaphore then None
      else Some (check (\<not> suspend_all st) ''Only one at a time''
             (let st1 = st\<lparr>suspend_all := True, signalled_by := [], waited := False\<rparr>
              in case is_synchronized st1 of
                   Inl f \<Rightarrow> Inl f
                 | Inr sync \<Rightarrow>
                     Inr (if sync then st1\<lparr>requester := Returned\<rparr>
                          else st1\<lparr>requester := On_semaphore, waited := True\<rparr>))))"

text \<open>
  The rest of \<^verbatim>\<open>synchronize\<close>: the semaphore wait returns when the count is positive and
  takes one from it; then come the two assertions of the debug build.
\<close>

definition SuspendibleThreadSet_synchronize_wakeup :: "sts \<Rightarrow> (fatal + sts) option" where
  "SuspendibleThreadSet_synchronize_wakeup st =
     (if requester st = On_semaphore \<and> 0 < synchronize_wakeup st then
        (let st1 = st\<lparr>synchronize_wakeup := synchronize_wakeup st - 1\<rparr>
         in Some (check (suspend_all st1) ''STS not synchronizing''
              (case is_synchronized st1 of
                 Inl f \<Rightarrow> Inl f
               | Inr sync \<Rightarrow>
                   check sync ''STS not synchronized'' (Inr (st1\<lparr>requester := Returned\<rparr>)))))
      else None)"

definition SuspendibleThreadSet_desynchronize :: "sts \<Rightarrow> (fatal + sts) option" where
  "SuspendibleThreadSet_desynchronize st =
     (if requester st = On_semaphore then None
      else Some (check (suspend_all st) ''STS not synchronizing''
             (case is_synchronized st of
                Inl f \<Rightarrow> Inl f
              | Inr sync \<Rightarrow>
                  check sync ''STS not synchronized''
                    (Inr (st\<lparr>suspend_all := False, requester := No_request\<rparr>)))))"

text \<open>
  A run is a sequence of such steps, chosen by the scheduler; it ends at the first fatal
  error, and it is not a run (\<open>None\<close>) when it asks a sleeping thread to move.
\<close>

datatype sts_event =
    Join nat | Leave nat | Yield nat nat | Yield_wakeup nat
  | Synchronize | Synchronize_wakeup | Desynchronize

fun sts_step :: "nat \<Rightarrow> sts_event \<Rightarrow> sts \<Rightarrow> (fatal + sts) option" where
  "sts_step T (Join t) st = (if t < length (threads st) then SuspendibleThreadSet_join t st else None)"
| "sts_step T (Leave t) st = (if t < length (threads st) then SuspendibleThreadSet_leave t st else None)"
| "sts_step T (Yield t elapsed) st =
     (if t < length (threads st) then SuspendibleThreadSet_yield T t elapsed st else None)"
| "sts_step T (Yield_wakeup t) st =
     (if t < length (threads st) then SuspendibleThreadSet_yield_wakeup t st else None)"
| "sts_step T Synchronize st = SuspendibleThreadSet_synchronize st"
| "sts_step T Synchronize_wakeup st = SuspendibleThreadSet_synchronize_wakeup st"
| "sts_step T Desynchronize st = SuspendibleThreadSet_desynchronize st"

fun sts_run :: "nat \<Rightarrow> sts_event list \<Rightarrow> sts \<Rightarrow> (fatal + sts) option" where
  "sts_run T [] st = Some (Inr st)"
| "sts_run T (ev # evs) st =
     (case sts_step T ev st of
        None \<Rightarrow> None
      | Some (Inl f) \<Rightarrow> Some (Inl f)
      | Some (Inr st1) \<Rightarrow> sts_run T evs st1)"

definition count_at :: "thread_at \<Rightarrow> thread_at list \<Rightarrow> nat" where
  "count_at a ts = length (filter (\<lambda>x. x = a) ts)"

text \<open>
  What holds in every state a run can reach: the counters count the threads, the flag is
  up exactly during a request, and the semaphore holds a signal exactly when the request
  is waiting and every joined thread is stopped.
\<close>

definition sts_inv :: "nat \<Rightarrow> sts \<Rightarrow> bool" where
  "sts_inv n st =
     (length (threads st) = n
      \<and> nthreads st = count_at Joined (threads st) + count_at Stopped (threads st)
      \<and> nthreads_stopped st = count_at Stopped (threads st)
      \<and> (case requester st of
           No_request \<Rightarrow> \<not> suspend_all st \<and> synchronize_wakeup st = 0
         | On_semaphore \<Rightarrow>
             suspend_all st \<and> waited st
             \<and> (if nthreads_stopped st = nthreads st
                then synchronize_wakeup st = 1 \<and> length (signalled_by st) = 1
                else synchronize_wakeup st = 0 \<and> signalled_by st = [])
         | Returned \<Rightarrow>
             suspend_all st \<and> synchronize_wakeup st = 0
             \<and> nthreads_stopped st = nthreads st
             \<and> length (signalled_by st) = (if waited st then 1 else 0)))"

text \<open>
  Two schedules. In the first, two threads join, the VM thread requests, one thread
  yields and the other leaves. In the second, a thread joins and yields to a first
  request; the VM thread ends that request and starts another one before the thread has
  left the wait loop of \<^verbatim>\<open>yield\<close>.
\<close>

definition example_schedule :: "sts_event list" where
  "example_schedule = [Join 0, Join 1, Synchronize, Yield 0 5, Leave 1]"

definition second_request_schedule :: "sts_event list" where
  "second_request_schedule =
     [Join 0, Synchronize, Yield 0 5, Synchronize_wakeup, Desynchronize, Synchronize]"

section \<open>The compaction pipeline of a region (memory server)\<close>

text \<open>
  An object at address \<open>obj\<close> has its mark word at \<open>obj\<close> (the forwarding pointer during
  compaction, \<open>0\<close> for \<^verbatim>\<open>NULL\<close>), its class word at \<open>obj + 1\<close> and its fields behind
  them. The class metadata is a parameter: \<open>ksize\<close> gives the size in words of the
  instances of a class and \<open>koops\<close> the offsets of their reference fields.
\<close>

subsection \<open>Phase 1: destinations\<close>

text \<open>
  Modelled from the spec: \<^verbatim>\<open>G1FullGCCompactionPoint::forward(object, size)\<close> (the
  compaction point is absent from the sources) assigns the cursor as the destination of
  the object, stores it in the header as the forwarding value and advances the cursor by
  the size. An object that is already at its destination is not forwarded; its header is
  reset when it holds something, as the copy closure of phase 3 takes a \<^verbatim>\<open>NULL\<close>
  forwardee for an object that does not move.
\<close>

fun G1FullGCCompactionPoint_forward :: "nat \<Rightarrow> nat \<Rightarrow> nat \<times> heap \<Rightarrow> nat \<times> heap" where
  "G1FullGCCompactionPoint_forward object word_size (cursor, h) =
     (cursor + word_size,
      if object = cursor
      then (if forwardee h object = 0 then h else init_mark_raw object h)
      else forward_to object cursor h)"

text \<open>
  Modelled from the spec: \<^verbatim>\<open>G1SemeruPrepareCompactLiveClosure::apply(oop object)\<close> (only
  declared in g1SemeruSTWCompact.hpp) forwards the object and returns its size.
\<close>

definition G1SemeruPrepareCompactLiveClosure_apply ::
  "(nat \<Rightarrow> nat) \<Rightarrow> nat \<times> heap \<Rightarrow> nat \<Rightarrow> fatal + (nat \<times> (nat \<times> heap))" where
  "G1SemeruPrepareCompactLiveClosure_apply ksize st object =
     (let word_size = oop_size ksize (snd st) object
      in Inr (word_size, G1FullGCCompactionPoint_forward object word_size st))"

text \<open>
  Modelled from the spec: \<^verbatim>\<open>phase1_prepare_for_compact(hr)\<close> (only declared). The region
  is compacted into itself: the cursor starts at \<open>bottom\<close>, the marked objects are
  forwarded in address order, and the cursor becomes the \<^verbatim>\<open>compaction_top\<close> of the
  region.
\<close>

definition phase1_prepare_for_compact ::
  "(nat \<Rightarrow> nat) \<Rightarrow> (nat \<Rightarrow> bool) \<Rightarrow> heap_region \<Rightarrow> heap \<Rightarrow> (fatal + heap_region \<times> heap) option" where
  "phase1_prepare_for_compact ksize bitmap hr h =
     (case apply_to_marked_objects (G1SemeruPrepareCompactLiveClosure_apply ksize) bitmap hr
             (r_bottom hr, h) of
        None \<Rightarrow> None
      | Some (Inl e) \<Rightarrow> Some (Inl e)
      | Some (Inr (cursor, h1)) \<Rightarrow> Some (Inr (hr\<lparr>compaction_top := cursor\<rparr>, h1)))"

subsection \<open>Phase 2: references inside the region\<close>

text \<open>
  Modelled from the spec: \<^verbatim>\<open>G1SemeruAdjustClosure::adjust_intra_region_pointer(p, hr)\<close>
  (only declared). A \<^verbatim>\<open>NULL\<close> reference is left alone. A reference to an object of the
  same region is rewritten to the forwarding address of its target, when the target has
  one. A reference into another region is not rewritten; the field is recorded in the
  cross-region reference queue.
\<close>

fun adjust_intra_region_pointer :: "heap_region \<Rightarrow> nat \<Rightarrow> heap \<times> nat list \<Rightarrow> heap \<times> nat list" where
  "adjust_intra_region_pointer hr p (h, queue) =
     (let target = h p
      in if target = 0 then (h, queue)
         else if is_in_reserved hr target
         then (if forwardee h target = 0 then (h, queue)
               else (h(p := forwardee h target), queue))
         else (h, queue @ [p]))"

text \<open>
  Modelled from the spec: \<^verbatim>\<open>oop_iterate_size(cl)\<close> and \<^verbatim>\<open>oop_iterate(cl, mr)\<close> (declared
  in oop.hpp, defined in the absent oop.inline.hpp) apply the closure to the reference
  fields of the object, the second one to those inside the memory region only; the first
  one returns the size of the object.
\<close>

definition oop_fields :: "(nat \<Rightarrow> nat list) \<Rightarrow> heap \<Rightarrow> nat \<Rightarrow> nat list" where
  "oop_fields koops h obj = map (\<lambda>off. obj + off) (koops (klass h obj))"

definition oop_iterate_size ::
  "(nat \<Rightarrow> nat) \<Rightarrow> (nat \<Rightarrow> nat list) \<Rightarrow> heap_region \<Rightarrow> nat \<Rightarrow> heap \<times> nat list
   \<Rightarrow> nat \<times> (heap \<times> nat list)" where
  "oop_iterate_size ksize koops hr obj st =
     (oop_size ksize (fst st) obj,
      fold (adjust_intra_region_pointer hr) (oop_fields koops (fst st) obj) st)"

definition oop_iterate ::
  "(nat \<Rightarrow> nat list) \<Rightarrow> heap_region \<Rightarrow> nat \<Rightarrow> nat \<Rightarrow> nat \<Rightarrow> heap \<times> nat list \<Rightarrow> heap \<times> nat list" where
  "oop_iterate koops hr obj mr_start mr_end st =
     fold (adjust_intra_region_pointer hr)
       (filter (\<lambda>p. mr_start \<le> p \<and> p < mr_end) (oop_fields koops (fst st) obj)) st"

text \<open>\<^verbatim>\<open>G1SemeruAdjustLiveClosure::apply(oop object)\<close>.\<close>

definition G1SemeruAdjustLiveClosure_apply ::
  "(nat \<Rightarrow> nat) \<Rightarrow> (nat \<Rightarrow> nat list) \<Rightarrow> heap_region \<Rightarrow> heap \<times> nat list \<Rightarrow> nat
   \<Rightarrow> fatal + (nat \<times> (heap \<times> nat list))" where
  "G1SemeruAdjustLiveClosure_apply ksize koops hr st object =
     Inr (oop_iterate_size ksize koops hr object st)"

text \<open>
  Modelled from the spec: \<^verbatim>\<open>G1CMBitMap::clear_region(r)\<close> (absent) clears the bits of the
  words of the region.
\<close>

definition clear_region :: "(nat \<Rightarrow> bool) \<Rightarrow> heap_region \<Rightarrow> nat \<Rightarrow> bool" where
  "clear_region bitmap r = (\<lambda>a. if is_in_reserved r a then False else bitmap a)"

text \<open>
  \<^verbatim>\<open>G1SemeruAdjustRegionClosure::do_heap_region(r)\<close>. The state is the heap, the
  cross-region reference queue and the bitmap. \<open>start_bottom\<close> is
  \<^verbatim>\<open>r->humongous_start_region()->bottom()\<close>, \<open>None\<close> when the region has no start region
  (the dereference of \<^verbatim>\<open>NULL\<close> then ends the process). The function has three branches:
  humongous, open archive, and every other type.
\<close>

definition G1SemeruAdjustRegionClosure_do_heap_region ::
  "(nat \<Rightarrow> nat) \<Rightarrow> (nat \<Rightarrow> nat list) \<Rightarrow> nat option \<Rightarrow> heap_region
   \<Rightarrow> heap \<times> nat list \<times> (nat \<Rightarrow> bool) \<Rightarrow> (fatal + heap \<times> nat list \<times> (nat \<Rightarrow> bool)) option" where
  "G1SemeruAdjustRegionClosure_do_heap_region ksize koops start_bottom r st =
     (case st of (h, queue, bitmap) \<Rightarrow>
        if is_humongous r then
          (case start_bottom of
             None \<Rightarrow> Some (Inl (AssertFailed ''humongous_start_region() is NULL''))
           | Some obj \<Rightarrow>
               (case oop_iterate koops r obj (r_bottom r) (r_top r) (h, queue) of
                  (h1, queue1) \<Rightarrow> Some (Inr (h1, queue1, bitmap))))
        else if is_open_archive r then
          (case apply_to_marked_objects (G1SemeruAdjustLiveClosure_apply ksize koops r)
                  bitmap r (h, queue) of
             None \<Rightarrow> None
           | Some (Inl e) \<Rightarrow> Some (Inl e)
           | Some (Inr (h1, queue1)) \<Rightarrow> Some (Inr (h1, queue1, clear_region bitmap r)))
        else
          (case apply_to_marked_objects (G1SemeruAdjustLiveClosure_apply ksize koops r)
                  bitmap r (h, queue) of
             None \<Rightarrow> None
           | Some (Inl e) \<Rightarrow> Some (Inl e)
           | Some (Inr (h1, queue1)) \<Rightarrow> Some (Inr (h1, queue1, bitmap))))"

subsection \<open>Phase 3: moving the objects\<close>

text \<open>
  Modelled from the spec: \<^verbatim>\<open>reset_after_compaction()\<close> (absent space.hpp) sets \<open>top\<close> to
  \<^verbatim>\<open>compaction_top\<close>, and \<^verbatim>\<open>mangle_unused_area()\<close> fills the words from \<open>top\<close> to \<open>end\<close>
  with the pattern \<open>badHeapWord\<close>.
\<close>

definition reset_after_compaction :: "heap_region \<Rightarrow> heap_region" where
  "reset_after_compaction r = set_top (compaction_top r) r"

definition mangle_unused_area :: "nat \<Rightarrow> heap_region \<Rightarrow> heap \<Rightarrow> heap" where
  "mangle_unused_area badHeapWord r h =
     (\<lambda>a. if r_top r \<le> a \<and> a < r_end r then badHeapWord else h a)"

text \<open>\<^verbatim>\<open>SemeruHeapRegion::complete_compaction()\<close>.\<close>

definition complete_compaction ::
  "bool \<Rightarrow> nat \<Rightarrow> heap_region \<Rightarrow> heap \<Rightarrow> heap_region \<times> heap" where
  "complete_compaction ZapUnusedHeapArea badHeapWord r h =
     (let r1 = reset_after_compaction r;
          r2 = (if pointer_delta (r_top r1) (r_bottom r1) = 0 then reset_bot r1 else r1);
          r3 = init_top_at_mark_start (zero_marked_bytes r2)
      in (r3, if ZapUnusedHeapArea then mangle_unused_area badHeapWord r3 h else h))"

text \<open>\<^verbatim>\<open>G1FullGCCompactTask::compact_region(hr)\<close>.\<close>

definition compact_region ::
  "(nat \<Rightarrow> nat) \<Rightarrow> bool \<Rightarrow> nat \<Rightarrow> (nat \<Rightarrow> bool) \<Rightarrow> heap_region \<Rightarrow> heap
   \<Rightarrow> (fatal + heap_region \<times> heap \<times> (nat \<Rightarrow> bool)) option" where
  "compact_region ksize ZapUnusedHeapArea badHeapWord bitmap hr h =
     (if is_humongous hr
      then Some (Inl (AssertFailed ''Should be no humongous regions in compaction queue''))
      else
        (case apply_to_marked_objects (G1CompactRegionClosure_apply ksize) bitmap hr h of
           None \<Rightarrow> None
         | Some (Inl e) \<Rightarrow> Some (Inl e)
         | Some (Inr h1) \<Rightarrow>
             (case complete_compaction ZapUnusedHeapArea badHeapWord hr h1 of
                (hr1, h2) \<Rightarrow> Some (Inr (hr1, h2, clear_region bitmap hr)))))"

text \<open>
  Phases 1 to 3 on one region, in this order. The result is the region, the heap, the
  cross-region reference queue and the bitmap.
\<close>

definition phases_1_to_3 ::
  "(nat \<Rightarrow> nat) \<Rightarrow> (nat \<Rightarrow> nat list) \<Rightarrow> bool \<Rightarrow> nat \<Rightarrow> nat option \<Rightarrow> heap_region
   \<Rightarrow> heap \<times> nat list \<times> (nat \<Rightarrow> bool)
   \<Rightarrow> (fatal + heap_region \<times> heap \<times> nat list \<times> (nat \<Rightarrow> bool)) option" where
  "phases_1_to_3 ksize koops ZapUnusedHeapArea badHeapWord start_bottom hr st =
     (case st of (h, queue, bitmap) \<Rightarrow>
        (case phase1_prepare_for_compact ksize bitmap hr h of
           None \<Rightarrow> None
         | Some (Inl e) \<Rightarrow> Some (Inl e)
         | Some (Inr (hr1, h1)) \<Rightarrow>
             (case G1SemeruAdjustRegionClosure_do_heap_region ksize koops start_bottom hr1
                     (h1, queue, bitmap) of
                None \<Rightarrow> None
              | Some (Inl e) \<Rightarrow> Some (Inl e)
              | Some (Inr (h2, queue2, bitmap2)) \<Rightarrow>
                  (case compact_region ksize ZapUnusedHeapArea badHeapWord bitmap2 hr1 h2 of
                     None \<Rightarrow> None
                   | Some (Inl e) \<Rightarrow> Some (Inl e)
                   | Some (Inr (hr3, h3, bitmap3)) \<Rightarrow> Some (Inr (hr3, h3, queue2, bitmap3))))))"

subsection \<open>Statement helpers for the compaction pipeline\<close>

text \<open>
  The live objects of a region, as pairs of address and size in address order: the
  bitmap marks their addresses and no word between them; they have at least the two
  header words, do not overlap and end at or below the limit of the walk.
\<close>

fun live_objects :: "(nat \<Rightarrow> bool) \<Rightarrow> nat \<Rightarrow> nat \<Rightarrow> (nat \<times> nat) list \<Rightarrow> bool" where
  "live_objects bitmap lo limit [] = (lo \<le> limit \<and> list_all (\<lambda>a. \<not> bitmap a) [lo ..< limit])"
| "live_objects bitmap lo limit ((obj, n) # os) =
     (lo \<le> obj \<and> list_all (\<lambda>a. \<not> bitmap a) [lo ..< obj] \<and> bitmap obj
      \<and> 2 \<le> n \<and> obj + n \<le> limit \<and> live_objects bitmap (obj + n) limit os)"

text \<open>
  The heap holds these objects: the class word is installed, the class gives the size,
  and the reference fields are distinct words behind the header and inside the object.
\<close>

definition object_in_heap :: "(nat \<Rightarrow> nat) \<Rightarrow> (nat \<Rightarrow> nat list) \<Rightarrow> heap \<Rightarrow> nat \<times> nat \<Rightarrow> bool" where
  "object_in_heap ksize koops h on =
     (klass h (fst on) \<noteq> 0 \<and> oop_size ksize h (fst on) = snd on
      \<and> distinct (koops (klass h (fst on)))
      \<and> list_all (\<lambda>off. 2 \<le> off \<and> off < snd on) (koops (klass h (fst on))))"

definition objects_in_heap ::
  "(nat \<Rightarrow> nat) \<Rightarrow> (nat \<Rightarrow> nat list) \<Rightarrow> heap \<Rightarrow> (nat \<times> nat) list \<Rightarrow> bool" where
  "objects_in_heap ksize koops h os = list_all (object_in_heap ksize koops h) os"

text \<open>The addresses that the cursor of phase 1 gives to the objects.\<close>

fun destinations :: "nat \<Rightarrow> (nat \<times> nat) list \<Rightarrow> nat list" where
  "destinations cursor [] = []"
| "destinations cursor ((obj, n) # os) = cursor # destinations (cursor + n) os"

text \<open>The reference fields of the objects, in the order of the walk.\<close>

definition field_addrs :: "(nat \<Rightarrow> nat list) \<Rightarrow> heap \<Rightarrow> (nat \<times> nat) list \<Rightarrow> nat list" where
  "field_addrs koops h os = concat (map (\<lambda>on. oop_fields koops h (fst on)) os)"

text \<open>
  A closure takes the walk through the objects of a list, one after the other, returning
  the recorded size each time, from one state to another.
\<close>

fun walk_ok ::
  "('s \<Rightarrow> nat \<Rightarrow> fatal + (nat \<times> 's)) \<Rightarrow> (nat \<times> nat) list \<Rightarrow> 's \<Rightarrow> 's \<Rightarrow> bool" where
  "walk_ok closure [] st st' = (st' = st)"
| "walk_ok closure ((obj, n) # os) st st' =
     (case closure st obj of
        Inl e \<Rightarrow> False
      | Inr (m, st1) \<Rightarrow> m = n \<and> walk_ok closure os st1 st')"

text \<open>
  The scenario of the specification: an old region with three live objects of 64, 128
  and 256 words, with gaps between them. The class word of an object is its size; the
  objects of 128 words have two reference fields, here one to the third object and one
  into another region.
\<close>

definition scenario_region :: heap_region where
  "scenario_region =
     example_old_region\<lparr>r_bottom := 1024, r_top := 1500, r_end := 2048,
                         compaction_top := 1024\<rparr>"

definition scenario_objects :: "(nat \<times> nat) list" where
  "scenario_objects = [(1030, 64), (1100, 128), (1240, 256)]"

definition scenario_bitmap :: "nat \<Rightarrow> bool" where
  "scenario_bitmap a = (a = 1030 \<or> a = 1100 \<or> a = 1240)"

definition scenario_koops :: "nat \<Rightarrow> nat list" where
  "scenario_koops k = (if k = 128 then [2, 3] else [])"

definition scenario_heap :: heap where
  "scenario_heap = (\<lambda>a. 0)(1031 := 64, 1101 := 128, 1102 := 1240, 1103 := 5000, 1241 := 256)"









chapter \<open>Properties\<close>

section \<open>Properties of bump-pointer allocation\<close>

lemma allocate_impl_contract:
  "min_word_size \<le> desired_word_size \<Longrightarrow>
   allocate_impl sp min_word_size desired_word_size act =
   allocate_contract sp min_word_size desired_word_size act"
  by (auto simp: allocate_impl_def allocate_contract_def pointer_delta_def Let_def)

lemma allocate_impl_at:
  "allocate_impl (sp\<lparr>s_top := t\<rparr>) mn des act =
     (if mn \<le> min (s_end sp - t) des
      then (Some t, min (s_end sp - t) des, sp\<lparr>s_top := t + min (s_end sp - t) des\<rparr>)
      else (None, act, sp\<lparr>s_top := t\<rparr>))"
  unfolding allocate_impl_def Let_def pointer_delta_def by simp

lemma interfere_top_update [simp]: "(interfere e sp)\<lparr>s_top := t\<rparr> = sp\<lparr>s_top := t\<rparr>"
  by (cases e) (simp_all add: interfere_def)

lemma interfere_end [simp]: "s_end (interfere e sp) = s_end sp"
  by (cases e) (simp_all add: interfere_def)

lemma interfere_top_cases: "s_top (interfere e sp) = s_top sp \<or> e = Some (s_top (interfere e sp))"
  by (cases e) (simp_all add: interfere_def)

lemma space_top_same: "sp\<lparr>s_top := s_top sp\<rparr> = (sp :: space)"
  by simp

lemma par_allocate_impl_linearizable:
  "\<exists>obs \<in> insert (s_top sp) (schedule_tops sched).
     par_allocate_impl sched sp mn des act = allocate_impl (sp\<lparr>s_top := obs\<rparr>) mn des act"
proof (induction sched sp mn des act rule: par_allocate_impl.induct)
  case (1 sp mn des act)
  have "par_allocate_impl [] sp mn des act = allocate_impl sp mn des act"
    unfolding allocate_impl_def by simp
  then have "par_allocate_impl [] sp mn des act =
             allocate_impl (sp\<lparr>s_top := s_top sp\<rparr>) mn des act"
    by (simp only: space_top_same)
  then show ?case by blast
next
  case (2 e sp mn des act)
  define sp0 where "sp0 = interfere e sp"
  have "par_allocate_impl [e] sp mn des act = allocate_impl sp0 mn des act"
    unfolding allocate_impl_def sp0_def par_allocate_impl.simps Let_def by (rule refl)
  also have "sp0 = sp\<lparr>s_top := s_top sp0\<rparr>"
    using space_top_same [of sp0] by (simp add: sp0_def)
  finally have eq: "par_allocate_impl [e] sp mn des act =
                    allocate_impl (sp\<lparr>s_top := s_top sp0\<rparr>) mn des act" .
  have "s_top sp0 \<in> insert (s_top sp) (schedule_tops [e])"
    using interfere_top_cases [of e sp] by (auto simp: sp0_def schedule_tops_def)
  then show ?case using eq by blast
next
  case (3 e e' sched sp mn des act)
  define sp0 where "sp0 = interfere e sp"
  define sp1 where "sp1 = interfere e' sp0"
  define want where "want = min (pointer_delta (s_end sp0) (s_top sp0)) des"
  have eq3: "par_allocate_impl (e # e' # sched) sp mn des act =
      (if mn \<le> want
       then (if s_top sp1 = s_top sp0
             then (Some (s_top sp0), want, sp1\<lparr>s_top := s_top sp0 + want\<rparr>)
             else par_allocate_impl sched sp1 mn des act)
       else (None, act, sp0))"
    unfolding sp0_def sp1_def want_def par_allocate_impl.simps Let_def by (rule refl)
  have tops0: "s_top sp0 \<in> insert (s_top sp) (schedule_tops (e # e' # sched))"
    using interfere_top_cases [of e sp] by (auto simp: sp0_def schedule_tops_def)
  have tops1: "s_top sp1 \<in> insert (s_top sp) (schedule_tops (e # e' # sched))"
    using tops0 interfere_top_cases [of e' sp0] by (auto simp: sp1_def schedule_tops_def)
  have sp0_eq: "sp0 = sp\<lparr>s_top := s_top sp0\<rparr>"
    using space_top_same [of sp0] by (simp add: sp0_def)
  have want_eq: "want = min (s_end sp - s_top sp0) des"
    by (simp add: want_def pointer_delta_def sp0_def)
  have at0: "allocate_impl (sp\<lparr>s_top := s_top sp0\<rparr>) mn des act =
      (if mn \<le> want
       then (Some (s_top sp0), want, sp\<lparr>s_top := s_top sp0 + want\<rparr>)
       else (None, act, sp0))"
    unfolding allocate_impl_at want_eq using sp0_eq by simp
  show ?case
  proof (cases "mn \<le> want")
    case False
    then have "par_allocate_impl (e # e' # sched) sp mn des act =
               allocate_impl (sp\<lparr>s_top := s_top sp0\<rparr>) mn des act"
      unfolding eq3 at0 by simp
    then show ?thesis using tops0 by blast
  next
    case True
    show ?thesis
    proof (cases "s_top sp1 = s_top sp0")
      case same: True
      have "sp1\<lparr>s_top := s_top sp0 + want\<rparr> = sp\<lparr>s_top := s_top sp0 + want\<rparr>"
        by (simp add: sp1_def sp0_def)
      then have "par_allocate_impl (e # e' # sched) sp mn des act =
            allocate_impl (sp\<lparr>s_top := s_top sp0\<rparr>) mn des act"
        unfolding eq3 at0 using True same by simp
      then show ?thesis using tops0 by blast
    next
      case diff: False
      have step: "par_allocate_impl (e # e' # sched) sp mn des act =
                  par_allocate_impl sched sp1 mn des act"
        unfolding eq3 using True diff by simp
      from True have "mn \<le> min (pointer_delta (s_end sp0) (s_top sp0)) des"
        by (simp only: want_def)
      from "3.IH" [OF sp0_def refl refl refl this refl sp1_def diff]
      obtain obs where obs: "obs \<in> insert (s_top sp1) (schedule_tops sched)"
        and eq: "par_allocate_impl sched sp1 mn des act =
                 allocate_impl (sp1\<lparr>s_top := obs\<rparr>) mn des act"
        by blast
      have "obs \<in> insert (s_top sp) (schedule_tops (e # e' # sched))"
        using obs tops1 by (auto simp: schedule_tops_def)
      moreover have "sp1\<lparr>s_top := obs\<rparr> = sp\<lparr>s_top := obs\<rparr>"
        by (simp add: sp1_def sp0_def)
      ultimately show ?thesis using step eq by auto
    qed
  qed
qed

text \<open>
  Claim C3. For a region with \<open>bottom \<le> top \<le> end\<close> and a request with
  \<open>minSize \<le> desiredSize\<close>, \<^verbatim>\<open>allocate_impl\<close> and \<^verbatim>\<open>par_allocate_impl\<close> fail
  (\<^verbatim>\<open>NULL\<close>) and change nothing exactly when \<open>end - top < minSize\<close>; otherwise they
  return the old top, advance top by \<open>min (end - top) desiredSize\<close> and report that
  amount, which lies between \<open>minSize\<close> and \<open>desiredSize\<close>, and the new top stays
  within the region. For the retry loop the value of top is the one \<^verbatim>\<open>_top\<close> holds when
  the loop leaves (the observed value \<open>obs\<close>: the initial top or one stored by another
  thread); without interference it is the initial top.
\<close>

theorem allocate_fails_exactly_without_room:
  assumes "s_bottom sp \<le> s_top sp" and "s_top sp \<le> s_end sp" and "minSize \<le> desiredSize"
  shows "allocate_impl sp minSize desiredSize act = allocate_contract sp minSize desiredSize act
       \<and> par_allocate_impl [] sp minSize desiredSize act =
           allocate_contract sp minSize desiredSize act
       \<and> (\<exists>obs \<in> insert (s_top sp) (schedule_tops sched).
             par_allocate_impl sched sp minSize desiredSize act =
             allocate_contract (sp\<lparr>s_top := obs\<rparr>) minSize desiredSize act)
       \<and> ((fst (allocate_impl sp minSize desiredSize act) = None) =
           (s_end sp - s_top sp < minSize))
       \<and> (if s_end sp - s_top sp < minSize then True
          else minSize \<le> fst (snd (allocate_impl sp minSize desiredSize act))
             \<and> fst (snd (allocate_impl sp minSize desiredSize act)) \<le> desiredSize
             \<and> s_bottom sp \<le> s_top (snd (snd (allocate_impl sp minSize desiredSize act)))
             \<and> s_top (snd (snd (allocate_impl sp minSize desiredSize act))) \<le> s_end sp)"
proof -
  have seq: "allocate_impl sp minSize desiredSize act =
             allocate_contract sp minSize desiredSize act"
    using assms(3) by (rule allocate_impl_contract)
  have par0: "par_allocate_impl [] sp minSize desiredSize act =
              allocate_impl sp minSize desiredSize act"
    unfolding allocate_impl_def by simp
  from par_allocate_impl_linearizable [of sp sched minSize desiredSize act]
  have par: "\<exists>obs \<in> insert (s_top sp) (schedule_tops sched).
             par_allocate_impl sched sp minSize desiredSize act =
             allocate_contract (sp\<lparr>s_top := obs\<rparr>) minSize desiredSize act"
    using allocate_impl_contract [OF assms(3)] by simp
  have none: "(fst (allocate_impl sp minSize desiredSize act) = None) =
              (s_end sp - s_top sp < minSize)"
    unfolding seq by (simp add: allocate_contract_def)
  have bounds: "if s_end sp - s_top sp < minSize then True
          else minSize \<le> fst (snd (allocate_impl sp minSize desiredSize act))
             \<and> fst (snd (allocate_impl sp minSize desiredSize act)) \<le> desiredSize
             \<and> s_bottom sp \<le> s_top (snd (snd (allocate_impl sp minSize desiredSize act)))
             \<and> s_top (snd (snd (allocate_impl sp minSize desiredSize act))) \<le> s_end sp"
    unfolding seq using assms by (auto simp: allocate_contract_def)
  show ?thesis using seq par0 par none bounds by simp
qed

theorem allocate_fails_exactly_without_room_witness:
  "allocate_impl \<lparr>s_bottom = 0, s_top = 10, s_end = 100\<rparr> 5 20 0 =
     (Some 10, 20, \<lparr>s_bottom = 0, s_top = 30, s_end = 100\<rparr>)
   \<and> par_allocate_impl [] \<lparr>s_bottom = 0, s_top = 10, s_end = 100\<rparr> 5 20 0 =
     (Some 10, 20, \<lparr>s_bottom = 0, s_top = 30, s_end = 100\<rparr>)
   \<and> fst (allocate_impl \<lparr>s_bottom = 0, s_top = 10, s_end = 100\<rparr> 5 20 0) \<noteq> None"
  using allocate_fails_exactly_without_room
    [of "\<lparr>s_bottom = 0, s_top = 10, s_end = 100\<rparr>" 5 20 0 "[Some 96, None]"]
  by (simp add: allocate_contract_def)

section \<open>Properties of the region on the CPU server\<close>

lemma report_region_type_change_fields [simp]:
  "r_type (report_region_type_change to r) = r_type r"
  "r_top (report_region_type_change to r) = r_top r"
  "r_bottom (report_region_type_change to r) = r_bottom r"
  "r_end (report_region_type_change to r) = r_end r"
  "hrm_index (report_region_type_change to r) = hrm_index r"
  "rem_set (report_region_type_change to r) = rem_set r"
  by (simp_all add: report_region_type_change_def)

lemma set_emits_one_event_before:
  "emits_one_event_before to r (type_set to (report_region_type_change to r))"
  by (simp add: emits_one_event_before_def type_set_def report_region_type_change_def
      get_trace_type_def)

text \<open>
  Claim C6, as the code has it. On a region that is outside the collection set and has no
  humongous start region recorded, \<^verbatim>\<open>hr_clear\<close> zeroes both marked-bytes counters, resets
  both TAMS to \<open>bottom\<close>, makes the region free, clears the remembered set exactly when
  \<open>keep_remset\<close> is false, and resets top to \<open>bottom\<close> exactly when \<open>clear_space\<close> is
  true (top is left as it is otherwise). On a region in the collection set, or with a
  humongous start region, it fails an assertion: a fatal error, no result.
\<close>

theorem hr_clear_resets_region:
  "if in_cset r \<or> humongous_start_region r \<noteq> None
   then (\<exists>msg. hr_clear keep_remset clear_space locked r = Inl (AssertFailed msg))
   else (\<exists>r'. hr_clear keep_remset clear_space locked r = Inr r'
          \<and> prev_marked_bytes r' = 0 \<and> next_marked_bytes r' = 0
          \<and> prev_top_at_mark_start r' = r_bottom r
          \<and> next_top_at_mark_start r' = r_bottom r
          \<and> rem_set r' = (if keep_remset then rem_set r else [])
          \<and> r_top r' = (if clear_space then r_bottom r else r_top r)
          \<and> r_bottom r' = r_bottom r \<and> r_end r' = r_end r
          \<and> r_type r' = Free)"
  by (simp add: hr_clear_def Let_def clear_def reset_bot_def CompactibleSpace_clear_def
      set_top_def init_top_at_mark_start_def zero_marked_bytes_def rem_set_clear_def
      rem_set_clear_locked_def reset_pre_dummy_top_def set_free_def type_set_def
      report_region_type_change_def uninstall_surv_rate_group_def
      set_young_index_in_cset_def)

theorem hr_clear_resets_region_witness:
  "(\<exists>r'. hr_clear False True False example_region = Inr r'
      \<and> prev_marked_bytes r' = 0 \<and> next_marked_bytes r' = 0
      \<and> prev_top_at_mark_start r' = 0 \<and> next_top_at_mark_start r' = 0
      \<and> rem_set r' = [] \<and> r_top r' = 0 \<and> r_type r' = Free)
   \<and> (\<exists>msg. hr_clear False True False (example_region\<lparr>in_cset := True\<rparr>) =
         Inl (AssertFailed msg))"
  using hr_clear_resets_region [of example_region False True False]
    hr_clear_resets_region [of "example_region\<lparr>in_cset := True\<rparr>" False True False]
  by (auto simp: example_region_def)

text \<open>
  The claim as stated fails: cleared without \<open>clear_space\<close>, the example region keeps its
  top of five words above \<open>bottom\<close>.
\<close>

theorem hr_clear_keeps_top_counterexample:
  "\<not> in_cset example_region
   \<and> map_sum id r_top (hr_clear False False False example_region) = Inr 5
   \<and> map_sum id r_bottom (hr_clear False False False example_region) = Inr 0"
  by (simp add: example_region_def hr_clear_def Let_def init_top_at_mark_start_def
      zero_marked_bytes_def rem_set_clear_def rem_set_clear_locked_def
      reset_pre_dummy_top_def set_free_def type_set_def report_region_type_change_def
      uninstall_surv_rate_group_def set_young_index_in_cset_def)

text \<open>
  Claim C7, as the code has it. Each of \<^verbatim>\<open>set_free\<close>, \<^verbatim>\<open>set_eden\<close>, \<^verbatim>\<open>set_survivor\<close>,
  \<^verbatim>\<open>set_old\<close>, \<^verbatim>\<open>set_open_archive\<close> and \<^verbatim>\<open>set_closed_archive\<close> reports exactly one
  event and reports it before the type changes; so do \<^verbatim>\<open>set_starts_humongous\<close> and
  \<^verbatim>\<open>set_continues_humongous\<close> when their asserted preconditions hold (otherwise they
  fail the assertion and report nothing). \<^verbatim>\<open>move_to_old\<close> relabels first: on a region
  that is old already it reports nothing and changes nothing, otherwise it reports one
  event after the relabel, so that the event's source type is \<open>Old\<close> already.
\<close>

theorem type_transitions_emit_one_event:
  "emits_one_event_before Free r (set_free r)
   \<and> emits_one_event_before Eden r (set_eden r)
   \<and> emits_one_event_before Survivor r (set_survivor r)
   \<and> emits_one_event_before Old r (set_old r)
   \<and> emits_one_event_before OpenArchive r (set_open_archive r)
   \<and> emits_one_event_before ClosedArchive r (set_closed_archive r)
   \<and> (if \<not> is_humongous r \<and> r_top r = r_bottom r
       then (\<exists>r'. set_starts_humongous obj_top fill_size r = Inr r'
               \<and> emits_one_event_before StartsHumongous r r')
       else (\<exists>msg. set_starts_humongous obj_top fill_size r = Inl (AssertFailed msg)))
   \<and> (if \<not> is_humongous r \<and> r_top r = r_bottom r \<and> is_starts_humongous first_hr
       then (\<exists>r'. set_continues_humongous first_hr r = Inr r'
               \<and> emits_one_event_before ContinuesHumongous r r')
       else (\<exists>msg. set_continues_humongous first_hr r = Inl (AssertFailed msg)))
   \<and> (if r_type r = Old then move_to_old r = r
       else events (move_to_old r) = events r @
              [\<lparr>ev_index = hrm_index r, ev_from = Old, ev_to = Old,
                ev_start = HeapWordSize * r_bottom r, ev_used = used r\<rparr>]
            \<and> r_type (move_to_old r) = Old)"
proof -
  have starts: "if \<not> is_humongous r \<and> r_top r = r_bottom r
       then (\<exists>r'. set_starts_humongous obj_top fill_size r = Inr r'
               \<and> emits_one_event_before StartsHumongous r r')
       else (\<exists>msg. set_starts_humongous obj_top fill_size r = Inl (AssertFailed msg))"
    by (simp add: set_starts_humongous_def Let_def emits_one_event_before_def type_set_def
        report_region_type_change_def get_trace_type_def)
  have continues: "if \<not> is_humongous r \<and> r_top r = r_bottom r \<and> is_starts_humongous first_hr
       then (\<exists>r'. set_continues_humongous first_hr r = Inr r'
               \<and> emits_one_event_before ContinuesHumongous r r')
       else (\<exists>msg. set_continues_humongous first_hr r = Inl (AssertFailed msg))"
    by (simp add: set_continues_humongous_def Let_def emits_one_event_before_def type_set_def
        report_region_type_change_def get_trace_type_def)
  have move: "if r_type r = Old then move_to_old r = r
       else events (move_to_old r) = events r @
              [\<lparr>ev_index = hrm_index r, ev_from = Old, ev_to = Old,
                ev_start = HeapWordSize * r_bottom r, ev_used = used r\<rparr>]
            \<and> r_type (move_to_old r) = Old"
    by (simp add: move_to_old_def relabel_as_old_def report_region_type_change_def
        get_trace_type_def used_def)
  show ?thesis
    using starts continues move
    by (simp only: set_free_def set_eden_def set_survivor_def set_old_def
        set_open_archive_def set_closed_archive_def set_emits_one_event_before simp_thms)
qed

theorem type_transitions_emit_one_event_witness:
  "map ev_from (events (set_eden (example_region\<lparr>r_type := Free\<rparr>))) = [Free]
   \<and> r_type (set_eden (example_region\<lparr>r_type := Free\<rparr>)) = Eden
   \<and> (\<exists>r'. set_starts_humongous 40 0 (example_region\<lparr>r_type := Free, r_top := 0\<rparr>) = Inr r'
         \<and> map ev_from (events r') = [Free] \<and> r_type r' = StartsHumongous)
   \<and> events (move_to_old example_region) =
       [\<lparr>ev_index = 3, ev_from = Old, ev_to = Old, ev_start = 0, ev_used = 40\<rparr>]"
  using type_transitions_emit_one_event [of "example_region\<lparr>r_type := Free\<rparr>" 40 0 example_region]
    type_transitions_emit_one_event
      [of "example_region\<lparr>r_type := Free, r_top := 0\<rparr>" 40 0 example_region]
    type_transitions_emit_one_event [of example_region 40 0 example_region]
  by (auto simp: example_region_def emits_one_event_before_def is_humongous_def used_def
      HeapWordSize_def pointer_delta_def)

text \<open>
  The claim as stated fails for the move-to-old relabel: on the old example region it
  reports no event, and on the survivor example region the one event it reports carries
  \<open>Old\<close> as its source type, that is, it was reported after the type had changed.
\<close>

theorem move_to_old_counterexample:
  "r_type example_old_region = Old
   \<and> length (events (move_to_old example_old_region)) = length (events example_old_region)
   \<and> r_type example_region = Survivor
   \<and> map ev_from (events (move_to_old example_region)) = [Old]
   \<and> \<not> emits_one_event_before Old example_region (move_to_old example_region)"
  by (simp add: example_old_region_def example_region_def move_to_old_def relabel_as_old_def
      report_region_type_change_def get_trace_type_def emits_one_event_before_def)

lemma long_to_int_in_range: "- (2 ^ 31) \<le> x \<Longrightarrow> x < 2 ^ 31 \<Longrightarrow> long_to_int x = x"
  by (simp add: long_to_int_def)

lemma long_to_int_zero_iff: "(long_to_int x = 0) = (x mod 2 ^ 32 = 0)"
proof -
  have "(x + 2 ^ 31) mod 2 ^ 32 = 2 ^ 31 \<longleftrightarrow> x mod 2 ^ 32 = (0 :: int)"
  proof
    assume a: "(x + 2 ^ 31) mod 2 ^ 32 = (2 ^ 31 :: int)"
    have "x mod 2 ^ 32 = ((x + 2 ^ 31) mod 2 ^ 32 - 2 ^ 31) mod 2 ^ 32"
      by (simp add: mod_diff_left_eq)
    also have "\<dots> = 0" by (simp only: a) simp
    finally show "x mod 2 ^ 32 = 0" .
  next
    assume a: "x mod 2 ^ 32 = (0 :: int)"
    have "(x + 2 ^ 31) mod 2 ^ 32 = (x mod 2 ^ 32 + 2 ^ 31) mod 2 ^ 32"
      by (simp add: mod_add_left_eq)
    also have "\<dots> = 2 ^ 31" by (simp only: a) simp
    finally show "(x + 2 ^ 31) mod 2 ^ 32 = (2 ^ 31 :: int)" .
  qed
  thus ?thesis by (simp add: long_to_int_def)
qed

text \<open>
  Claim C8, as the code has it. \<^verbatim>\<open>flush_data\<close> asks the transport for one write of exactly
  \<open>GrainBytes\<close> bytes starting at the byte address of \<open>bottom\<close>, to server 0 exactly when
  the byte address of \<open>end\<close> lies below \<^verbatim>\<open>MEMORY_SERVER_1_START_ADDR\<close> and to server 1
  otherwise. The status that the transport returns is a \<^verbatim>\<open>long\<close> that the code stores in an
  \<^verbatim>\<open>int\<close> before it tests it: the \<^verbatim>\<open>guarantee\<close> fails (fatal) exactly when the low 32 bits
  of the status are not all zero, and otherwise the function returns with the region
  unchanged. For a status in the range of \<^verbatim>\<open>int\<close> that is: fatal exactly when the status is
  not zero. The status \<open>2 ^ 32\<close> is not zero and \<^verbatim>\<open>flush_data\<close> returns normally.
\<close>

theorem flush_data_sends_whole_region:
  "region_to_memory_server_mapping M1 r \<in> {0, 1}
   \<and> (region_to_memory_server_mapping M1 r = 0) = (HeapWordSize * r_end r < M1)
   \<and> flush_data M1 GrainBytes status wire r =
       (if status (region_to_memory_server_mapping M1 r) (HeapWordSize * r_bottom r) GrainBytes
             mod 2 ^ 32 = 0
        then Inr (r, wire @ [(region_to_memory_server_mapping M1 r,
                              HeapWordSize * r_bottom r, GrainBytes)])
        else Inl (GuaranteeFailed '' RDMA write failed.''))
   \<and> (if - (2 ^ 31) \<le> status (region_to_memory_server_mapping M1 r) (HeapWordSize * r_bottom r)
                          GrainBytes
          \<and> status (region_to_memory_server_mapping M1 r) (HeapWordSize * r_bottom r) GrainBytes
                < 2 ^ 31
       then (flush_data M1 GrainBytes status wire r = Inl (GuaranteeFailed '' RDMA write failed.''))
            = (status (region_to_memory_server_mapping M1 r) (HeapWordSize * r_bottom r)
                 GrainBytes \<noteq> 0)
       else True)
   \<and> flush_data M1 GrainBytes (\<lambda>server addr len. 2 ^ 32) wire r =
       Inr (r, wire @ [(region_to_memory_server_mapping M1 r, HeapWordSize * r_bottom r,
                        GrainBytes)])"
proof -
  define s where
    "s = status (region_to_memory_server_mapping M1 r) (HeapWordSize * r_bottom r) GrainBytes"
  have 1: "region_to_memory_server_mapping M1 r \<in> {0, 1}"
    and 2: "(region_to_memory_server_mapping M1 r = 0) = (HeapWordSize * r_end r < M1)"
    by (simp_all add: region_to_memory_server_mapping_def)
  have 3: "flush_data M1 GrainBytes status wire r =
       (if s mod 2 ^ 32 = 0
        then Inr (r, wire @ [(region_to_memory_server_mapping M1 r,
                              HeapWordSize * r_bottom r, GrainBytes)])
        else Inl (GuaranteeFailed '' RDMA write failed.''))"
    by (simp add: flush_data_def Let_def long_to_int_zero_iff s_def)
  have 4: "(flush_data M1 GrainBytes status wire r = Inl (GuaranteeFailed '' RDMA write failed.''))
            = (s \<noteq> 0)" if "- (2 ^ 31) \<le> s" "s < 2 ^ 31"
    using long_to_int_in_range [OF that]
    by (simp add: flush_data_def Let_def s_def)
  have 5: "flush_data M1 GrainBytes (\<lambda>server addr len. 2 ^ 32) wire r =
       Inr (r, wire @ [(region_to_memory_server_mapping M1 r, HeapWordSize * r_bottom r,
                        GrainBytes)])"
    by (simp add: flush_data_def Let_def long_to_int_def)
  from 1 2 3 4 5 show ?thesis unfolding s_def by simp
qed

theorem flush_data_sends_whole_region_witness:
  "flush_data 1024 4096 (\<lambda>s a n. 0) [] example_region =
     Inr (example_region, [(0, 0, 4096)])
   \<and> flush_data 256 4096 (\<lambda>s a n. if s = 1 then - 1 else 0) [] example_region =
     Inl (GuaranteeFailed '' RDMA write failed.'')
   \<and> flush_data 1024 4096 (\<lambda>s a n. 4294967296) [] example_region =
     Inr (example_region, [(0, 0, 4096)])"
  using flush_data_sends_whole_region [of 1024 example_region 4096 "\<lambda>s a n. 0" "[]"]
    flush_data_sends_whole_region
      [of 256 example_region 4096 "\<lambda>s a n. if s = 1 then - 1 else 0" "[]"]
    flush_data_sends_whole_region [of 1024 example_region 4096 "\<lambda>s a n. 4294967296" "[]"]
  by (simp add: example_region_def HeapWordSize_def region_to_memory_server_mapping_def)

section \<open>Properties of the copy closure\<close>

text \<open>
  Claim C10. Applied to an object whose header holds no forwarding address, the copy
  closure returns the size of the object and leaves every heap word as it is (nothing is
  copied, no header is reinitialised). It changes the heap only for an object with a
  forwarding address that is not \<^verbatim>\<open>NULL\<close> and differs from the object's own address:
  then the object's words are copied to the destination and the header there is
  reinitialised; a forwarding address equal to the object's own address fails the
  assertion instead.
\<close>

theorem compact_closure_skips_unforwarded:
  "if forwardee h obj = 0
   then G1CompactRegionClosure_apply ksize h obj = Inr (oop_size ksize h obj, h)
   else if forwardee h obj = obj
   then (\<exists>msg. G1CompactRegionClosure_apply ksize h obj = Inl (AssertFailed msg))
   else G1CompactRegionClosure_apply ksize h obj =
          (if klass (init_mark_raw (forwardee h obj)
                (aligned_conjoint_words obj (forwardee h obj) (oop_size ksize h obj) h))
                (forwardee h obj) = 0
           then Inl (AssertFailed ''should have a class'')
           else Inr (oop_size ksize h obj,
                  init_mark_raw (forwardee h obj)
                    (aligned_conjoint_words obj (forwardee h obj) (oop_size ksize h obj) h)))"
  by (auto simp: G1CompactRegionClosure_apply_def Let_def)

theorem compact_closure_skips_unforwarded_witness:
  "G1CompactRegionClosure_apply (\<lambda>k. k) ((\<lambda>a. 0)(11 := 3)) 10 = Inr (3, (\<lambda>a. 0)(11 := 3))
   \<and> (case G1CompactRegionClosure_apply (\<lambda>k. k) ((\<lambda>a. 0)(10 := 4, 11 := 3, 12 := 7)) 10 of
        Inl e \<Rightarrow> False
      | Inr (sz, h') \<Rightarrow> sz = 3 \<and> h' 4 = 0 \<and> h' 5 = 3 \<and> h' 6 = 7)"
  using compact_closure_skips_unforwarded [of "(\<lambda>a. 0)(11 := 3)" 10 "\<lambda>k. k"]
    compact_closure_skips_unforwarded [of "(\<lambda>a. 0)(10 := 4, 11 := 3, 12 := 7)" 10 "\<lambda>k. k"]
  by (auto simp: forwardee_def oop_size_def klass_def init_mark_raw_def
      aligned_conjoint_words_def G1CompactRegionClosure_apply_def)

section \<open>Properties of the block offset table\<close>

lemma power_to_cards_back_pos [simp]: "0 < power_to_cards_back c i"
  by (simp add: power_to_cards_back_def)

lemma power_to_cards_back_0 [simp]: "power_to_cards_back c 0 = 1"
  by (simp add: power_to_cards_back_def)

lemma power_to_cards_back_mono: "i \<le> j \<Longrightarrow> power_to_cards_back c i \<le> power_to_cards_back c j"
  by (simp add: power_to_cards_back_def)

lemma power_to_cards_back_less_iff:
  "0 < LogBase c \<Longrightarrow> (power_to_cards_back c i < power_to_cards_back c j) = (i < j)"
  by (simp add: power_to_cards_back_def)

lemma set_offset_array_range_simps [simp]:
  "offset_array (set_offset_array_range l r v bs) =
     (\<lambda>k. if l \<le> k \<and> k \<le> r then v mod 256 else offset_array bs k)"
  "reserved_start (set_offset_array_range l r v bs) = reserved_start bs"
  "reserved_end (set_offset_array_range l r v bs) = reserved_end bs"
  "next_offset_threshold (set_offset_array_range l r v bs) = next_offset_threshold bs"
  "next_offset_index (set_offset_array_range l r v bs) = next_offset_index bs"
  "object_can_span (set_offset_array_range l r v bs) = object_can_span bs"
  by (simp_all add: set_offset_array_range_def)

lemma set_remainder_loop_spec:
  assumes "0 < LogBase c" and "N_words c + N_powers c \<le> 256"
    and "0 < start_card"
    and "scfr = start_card - 1 + power_to_cards_back c i"
    and "i \<le> N_powers c"
    and "end_card < start_card - 1 + power_to_cards_back c (N_powers c)"
    and "set_remainder_loop c start_card end_card i scfr bs = (scfr', bs')"
  shows "(scfr \<le> end_card \<longrightarrow> end_card < scfr')
       \<and> (\<forall>k. scfr \<le> k \<and> k \<le> end_card \<longrightarrow> log_stamped c (offset_array bs') (start_card - 1) k)
       \<and> (\<forall>k. \<not> (scfr \<le> k \<and> k \<le> end_card) \<longrightarrow> offset_array bs' k = offset_array bs k)
       \<and> reserved_start bs' = reserved_start bs \<and> reserved_end bs' = reserved_end bs
       \<and> next_offset_threshold bs' = next_offset_threshold bs
       \<and> next_offset_index bs' = next_offset_index bs
       \<and> object_can_span bs' = object_can_span bs"
  using assms
proof (induction c start_card end_card i scfr bs rule: set_remainder_loop.induct)
  case (1 c start_card end_card i scfr bs)
  show ?case
  proof (cases "i < N_powers c")
    case False
    with "1.prems" have "i = N_powers c" by simp
    with "1.prems" have "end_card < scfr" by simp
    moreover from False "1.prems"(7) have "scfr' = scfr" "bs' = bs"
      by (simp_all add: set_remainder_loop.simps [of c start_card end_card i scfr bs])
    ultimately show ?thesis by auto
  next
    case True
    define reach where "reach = start_card - 1 + (power_to_cards_back c (i + 1) - 1)"
    have small: "(N_words c + i) mod 256 = N_words c + i"
      using True "1.prems"(2) by simp
    have lt: "power_to_cards_back c i < power_to_cards_back c (i + 1)"
      using "1.prems"(1) by (simp add: power_to_cards_back_less_iff)
    have scfr_le: "scfr \<le> reach"
      using lt "1.prems"(4) by (simp add: reach_def)
    show ?thesis
    proof (cases "reach \<ge> end_card")
      case True
      with \<open>i < N_powers c\<close> "1.prems"(7)
      have res: "scfr' = reach + 1" "bs' = set_offset_array_range scfr end_card (N_words c + i) bs"
        by (simp_all add: set_remainder_loop.simps [of c start_card end_card i scfr bs]
            Let_def reach_def)
      have "log_stamped c (offset_array bs') (start_card - 1) k"
        if "scfr \<le> k" "k \<le> end_card" for k
        unfolding log_stamped_def
      proof (intro exI [of _ i] conjI)
        show "i < N_powers c" by fact
        show "offset_array bs' k = N_words c + i" using that small by (simp add: res)
        show "power_to_cards_back c i \<le> k - (start_card - 1)"
          using that "1.prems"(4) by simp
        show "k - (start_card - 1) < power_to_cards_back c (i + 1)"
          using that True lt by (simp add: reach_def)
      qed
      then show ?thesis using True by (auto simp: res)
    next
      case False
      define bs1 where "bs1 = set_offset_array_range scfr reach (N_words c + i) bs"
      from False \<open>i < N_powers c\<close> "1.prems"(7)
      have rec: "set_remainder_loop c start_card end_card (i + 1) (reach + 1) bs1 = (scfr', bs')"
        by (simp add: set_remainder_loop.simps [of c start_card end_card i scfr bs]
            Let_def reach_def bs1_def)
      have next_scfr: "reach + 1 = start_card - 1 + power_to_cards_back c (i + 1)"
        by (simp add: reach_def)
      from "1.IH" [OF \<open>i < N_powers c\<close> reach_def refl _ "1.prems"(1,2,3) next_scfr _ "1.prems"(6)]
        False rec \<open>i < N_powers c\<close>
      have IH: "(reach + 1 \<le> end_card \<longrightarrow> end_card < scfr')
       \<and> (\<forall>k. reach + 1 \<le> k \<and> k \<le> end_card \<longrightarrow> log_stamped c (offset_array bs') (start_card - 1) k)
       \<and> (\<forall>k. \<not> (reach + 1 \<le> k \<and> k \<le> end_card) \<longrightarrow> offset_array bs' k = offset_array bs1 k)
       \<and> reserved_start bs' = reserved_start bs1 \<and> reserved_end bs' = reserved_end bs1
       \<and> next_offset_threshold bs' = next_offset_threshold bs1
       \<and> next_offset_index bs' = next_offset_index bs1
       \<and> object_can_span bs' = object_can_span bs1"
        by (simp add: bs1_def)
      have low: "log_stamped c (offset_array bs') (start_card - 1) k"
        if "scfr \<le> k" "k \<le> reach" for k
        unfolding log_stamped_def
      proof (intro exI [of _ i] conjI)
        show "i < N_powers c" by fact
        have "offset_array bs' k = offset_array bs1 k" using IH that by simp
        then show "offset_array bs' k = N_words c + i" using that small by (simp add: bs1_def)
        show "power_to_cards_back c i \<le> k - (start_card - 1)"
          using that "1.prems"(4) by simp
        show "k - (start_card - 1) < power_to_cards_back c (i + 1)"
          using that lt by (simp add: reach_def)
      qed
      have all: "log_stamped c (offset_array bs') (start_card - 1) k"
        if "scfr \<le> k" "k \<le> end_card" for k
        using that low IH by (cases "k \<le> reach") auto
      have other: "offset_array bs' k = offset_array bs k"
        if "\<not> (scfr \<le> k \<and> k \<le> end_card)" for k
      proof -
        from that False scfr_le have "\<not> (reach + 1 \<le> k \<and> k \<le> end_card)" by auto
        with IH have "offset_array bs' k = offset_array bs1 k" by simp
        also have "\<dots> = offset_array bs k" using that False by (auto simp: bs1_def)
        finally show ?thesis .
      qed
      from False IH have "end_card < scfr'" by simp
      then show ?thesis using all other IH by (simp add: bs1_def)
    qed
  qed
qed

lemma N_words_pos [simp]: "0 < N_words c"
  by (simp add: N_words_def)

lemma power_to_cards_back_ge2: "0 < LogBase c \<Longrightarrow> 0 < j \<Longrightarrow> 2 \<le> power_to_cards_back c j"
proof -
  assume "0 < LogBase c" "0 < j"
  then have "1 \<le> LogBase c * j" by simp
  then have "(2::nat) ^ 1 \<le> 2 ^ (LogBase c * j)"
    by (rule power_increasing) simp
  then show ?thesis by (simp add: power_to_cards_back_def)
qed

lemma entry_to_cards_back_code [simp]:
  "entry_to_cards_back c (N_words c + j) = power_to_cards_back c j"
  by (simp add: entry_to_cards_back_def)

lemma log_stamped_one:
  assumes "0 < LogBase c" and "log_stamped c arr idx (Suc idx)"
  shows "arr (Suc idx) = N_words c"
proof -
  from assms(2) obtain j where j: "arr (Suc idx) = N_words c + j"
    "power_to_cards_back c j \<le> Suc idx - idx"
    unfolding log_stamped_def by blast
  have "j = 0"
  proof (rule ccontr)
    assume "j \<noteq> 0"
    then have "2 \<le> power_to_cards_back c j"
      using assms(1) by (simp add: power_to_cards_back_ge2)
    with j(2) show False by simp
  qed
  with j(1) show ?thesis by simp
qed

lemma check_cards_pass:
  assumes "0 < LogBase c" and "0 < start_card"
    and "\<forall>k. start_card \<le> k \<and> k \<le> end_card \<longrightarrow>
           log_stamped c (offset_array bs) (start_card - 1) k"
    and "offset_array bs (start_card - 1) \<le> N_words c"
    and "\<forall>k \<in> set ks. start_card < k \<and> k \<le> end_card"
  shows "check_cards c bs start_card ks = Inr ()"
  using assms(5)
proof (induction ks)
  case Nil
  show ?case by simp
next
  case (Cons k ks)
  then have k: "start_card < k" "k \<le> end_card" and rest: "check_cards c bs start_card ks = Inr ()"
    by simp_all
  from assms(3) k have "log_stamped c (offset_array bs) (start_card - 1) k" by simp
  then obtain j where j: "j < N_powers c" "offset_array bs k = N_words c + j"
    "power_to_cards_back c j \<le> k - (start_card - 1)"
    "k - (start_card - 1) < power_to_cards_back c (j + 1)"
    unfolding log_stamped_def by blast
  have g1: "\<not> (k - start_card > power_to_cards_back c 1) \<or> offset_array bs k > N_words c"
  proof (cases "k - start_card > power_to_cards_back c 1")
    case True
    with j(4) have "power_to_cards_back c 1 < power_to_cards_back c (j + 1)" by simp
    then have "0 < j" using assms(1) by (simp add: power_to_cards_back_less_iff)
    then show ?thesis using j(2) by simp
  qed simp
  have bk: "entry_to_cards_back c (offset_array bs k) = power_to_cards_back c j"
    by (simp add: j(2))
  have le_k: "power_to_cards_back c j \<le> k" using j(3) by simp
  have land_ge: "k - power_to_cards_back c j \<ge> start_card - 1"
    using j(3) power_to_cards_back_pos [of c j] by linarith
  have mono: "offset_array bs (k - power_to_cards_back c j) \<le> offset_array bs k"
    if "k - power_to_cards_back c j \<ge> start_card"
  proof -
    from that k have "k - power_to_cards_back c j \<le> end_card" by simp
    with assms(3) that
    have "log_stamped c (offset_array bs) (start_card - 1) (k - power_to_cards_back c j)"
      by simp
    then obtain j' where j': "offset_array bs (k - power_to_cards_back c j) = N_words c + j'"
      "power_to_cards_back c j' \<le> k - power_to_cards_back c j - (start_card - 1)"
      unfolding log_stamped_def by blast
    from j'(2) j(4) have "power_to_cards_back c j' < power_to_cards_back c (j + 1)" by simp
    then have "j' \<le> j" using assms(1) by (simp add: power_to_cards_back_less_iff)
    then show ?thesis by (simp add: j' j(2))
  qed
  have land_eq: "k - power_to_cards_back c j = start_card - 1"
    if "\<not> k - power_to_cards_back c j \<ge> start_card"
    using that land_ge by simp
  show ?case
  proof (cases "k - power_to_cards_back c j \<ge> start_card")
    case True
    then show ?thesis
      using g1 j(2) bk le_k land_ge mono rest
      by (simp add: Let_def guarantee_def check_def)
  next
    case False
    with land_eq have eq: "k - power_to_cards_back c j = start_card - 1" by simp
    have "\<not> start_card - 1 \<ge> start_card" using assms(2) by simp
    then show ?thesis
      using g1 j(2) bk le_k assms(4) rest eq
      by (simp add: Let_def guarantee_def check_def)
  qed
qed

lemma check_all_cards_pass:
  assumes "0 < LogBase c" and "0 < start_card"
    and "\<forall>k. start_card \<le> k \<and> k \<le> end_card \<longrightarrow>
           log_stamped c (offset_array bs) (start_card - 1) k"
    and "offset_array bs (start_card - 1) \<le> N_words c"
  shows "check_all_cards c bs start_card end_card = Inr ()"
proof (cases "end_card < start_card")
  case True
  then show ?thesis by (simp add: check_all_cards_def)
next
  case False
  with assms(3) have "log_stamped c (offset_array bs) (start_card - 1) start_card" by simp
  with assms(2) have "log_stamped c (offset_array bs) (start_card - 1) (Suc (start_card - 1))"
    by simp
  then have "offset_array bs (Suc (start_card - 1)) = N_words c"
    using assms(1) by (rule log_stamped_one [rotated])
  then have first: "offset_array bs start_card = N_words c" using assms(2) by simp
  have "check_cards c bs start_card [Suc start_card ..< Suc end_card] = Inr ()"
    using assms by (intro check_cards_pass [where end_card = end_card]) auto
  then show ?thesis using False first by (simp add: check_all_cards_def guarantee_def)
qed

lemma index_for_address_for_index [simp]:
  "index_for c bs (address_for_index c bs i) = i"
  by (simp add: index_for_def address_for_index_def pointer_delta_def)

lemma index_for_address_plus:
  "d < N_words c \<Longrightarrow> index_for c bs (address_for_index c bs i + d) = i"
  by (simp add: index_for_def address_for_index_def pointer_delta_def)

lemma address_for_index_le:
  "reserved_start bs \<le> p \<Longrightarrow> address_for_index c bs (index_for c bs p) \<le> p"
  by (simp add: index_for_def address_for_index_def pointer_delta_def)
    (metis add.commute le_add_diff_inverse mult.commute div_times_less_eq_dividend nat_add_left_cancel_le)

lemma address_for_index_gt:
  "p < address_for_index c bs (index_for c bs p) + N_words c"
proof -
  have "(p - reserved_start bs) mod N_words c < N_words c" by simp
  moreover have "p - reserved_start bs =
      (p - reserved_start bs) div N_words c * N_words c + (p - reserved_start bs) mod N_words c"
    by simp
  ultimately have "p - reserved_start bs < (p - reserved_start bs) div N_words c * N_words c + N_words c"
    by linarith
  then show ?thesis
    by (simp add: index_for_def address_for_index_def pointer_delta_def)
qed

lemma address_for_index_mono:
  "i \<le> j \<Longrightarrow> address_for_index c bs i \<le> address_for_index c bs j"
  by (simp add: address_for_index_def)

lemma address_for_index_Suc:
  "address_for_index c bs (Suc i) = address_for_index c bs i + N_words c"
  by (simp add: address_for_index_def)

lemma index_for_mono: "p \<le> q \<Longrightarrow> index_for c bs p \<le> index_for c bs q"
  by (simp add: index_for_def pointer_delta_def div_le_mono)

lemma index_for_less_address:
  "reserved_start bs \<le> p \<Longrightarrow> p < address_for_index c bs i \<Longrightarrow> index_for c bs p < i"
proof -
  assume a: "reserved_start bs \<le> p" "p < address_for_index c bs i"
  then have "p - reserved_start bs < i * N_words c"
    by (simp add: address_for_index_def)
  then have "(p - reserved_start bs) div N_words c < i"
    by (simp add: less_mult_imp_div_less)
  then show ?thesis by (simp add: index_for_def pointer_delta_def)
qed

lemma index_for_ge_address:
  "address_for_index c bs i \<le> p \<Longrightarrow> i \<le> index_for c bs p"
  using index_for_mono [of "address_for_index c bs i" p c bs] by simp

lemma address_for_index_fields:
  "reserved_start bs' = reserved_start bs \<Longrightarrow> address_for_index c bs' = address_for_index c bs"
  by (simp add: address_for_index_def fun_eq_iff)

lemma index_for_fields:
  "reserved_start bs' = reserved_start bs \<Longrightarrow> index_for c bs' = index_for c bs"
  by (simp add: index_for_def fun_eq_iff)

lemma same_fields_refl [simp]: "same_fields bs bs"
  by (simp add: same_fields_def)

lemma same_fields_trans: "same_fields bs2 bs1 \<Longrightarrow> same_fields bs1 bs \<Longrightarrow> same_fields bs2 bs"
  by (simp add: same_fields_def)

lemma same_fields_address: "same_fields bs' bs \<Longrightarrow> address_for_index c bs' = address_for_index c bs"
  by (rule address_for_index_fields) (simp add: same_fields_def)

lemma same_fields_index: "same_fields bs' bs \<Longrightarrow> index_for c bs' = index_for c bs"
  by (rule index_for_fields) (simp add: same_fields_def)

lemma set_offset_array_simps [simp]:
  "offset_array (set_offset_array i v bs) = (offset_array bs)(i := v mod 256)"
  "same_fields (set_offset_array i v bs) bs"
  by (simp_all add: set_offset_array_def same_fields_def)

lemma N_words_le_255: "bot_constants_ok c \<Longrightarrow> N_words c \<le> 255"
  by (simp add: bot_constants_ok_def)

lemma set_remainder_incl_spec:
  assumes ok: "bot_constants_ok c"
    and first: "index_for c bs (r_bottom sp) < start_card"
    and le: "start_card \<le> end_card"
    and prev: "offset_array bs (start_card - 1) \<le> N_words c"
    and size: "end_card < start_card - 1 + power_to_cards_back c (N_powers c)"
  shows "\<exists>bs'. set_remainder_to_point_to_start_incl c sp start_card end_card bs = Inr bs'
     \<and> (\<forall>k. start_card \<le> k \<and> k \<le> end_card \<longrightarrow>
            log_stamped c (offset_array bs') (start_card - 1) k)
     \<and> (\<forall>k. \<not> (start_card \<le> k \<and> k \<le> end_card) \<longrightarrow> offset_array bs' k = offset_array bs k)
     \<and> same_fields bs' bs"
proof -
  from ok have lb: "0 < LogBase c" and fit: "N_words c + N_powers c \<le> 256"
    by (simp_all add: bot_constants_ok_def)
  from first have pos: "0 < start_card" by simp
  obtain scfr' bs' where loop: "set_remainder_loop c start_card end_card 0 start_card bs = (scfr', bs')"
    by (cases "set_remainder_loop c start_card end_card 0 start_card bs") auto
  have start: "start_card = start_card - 1 + power_to_cards_back c 0"
    using pos by simp
  from set_remainder_loop_spec [OF lb fit pos start _ size loop]
  have spec: "end_card < scfr'"
    "\<forall>k. start_card \<le> k \<and> k \<le> end_card \<longrightarrow> log_stamped c (offset_array bs') (start_card - 1) k"
    "\<forall>k. \<not> (start_card \<le> k \<and> k \<le> end_card) \<longrightarrow> offset_array bs' k = offset_array bs k"
    "same_fields bs' bs"
    using le by (simp_all add: same_fields_def)
  have "offset_array bs' (start_card - 1) = offset_array bs (start_card - 1)"
    using spec(3) pos by simp
  with prev have prev': "offset_array bs' (start_card - 1) \<le> N_words c" by simp
  have chk: "check_all_cards c bs' start_card end_card = Inr ()"
    using lb pos spec(2) prev' by (rule check_all_cards_pass)
  have "set_remainder_to_point_to_start_incl c sp start_card end_card bs = Inr bs'"
    using le first prev loop spec(1) chk
    by (simp add: set_remainder_to_point_to_start_incl_def check_def)
  with spec show ?thesis by blast
qed

lemma alloc_block_work_spec:
  assumes ok: "bot_constants_ok c"
    and pre: "0 < blk_start" "blk_start < blk_end" "threshold < blk_end" "blk_start \<le> threshold"
      "threshold - blk_start \<le> N_words c" "reserved_start bs \<le> blk_start"
      "blk_end \<le> reserved_end bs"
    and thr: "threshold = address_for_index c bs index"
    and first: "index_for c bs (r_bottom sp) < index"
    and size: "index_for c bs (blk_end - 1) < index + power_to_cards_back c (N_powers c)"
  shows "\<exists>bs'. alloc_block_work c sp threshold index blk_start blk_end bs =
           Inr (address_for_index c bs (index_for c bs (blk_end - 1)) + N_words c,
                index_for c bs (blk_end - 1) + 1, bs')
     \<and> stamped_block c bs' blk_start index (index_for c bs (blk_end - 1))
     \<and> (\<forall>k. k < index \<or> index_for c bs (blk_end - 1) < k \<longrightarrow>
            offset_array bs' k = offset_array bs k)
     \<and> same_fields bs' bs"
proof -
  define end_index where "end_index = index_for c bs (blk_end - 1)"
  define d where "d = threshold - blk_start"
  define bs1 where "bs1 = set_offset_array index d bs"
  from ok have lb: "0 < LogBase c" and fit: "N_words c + N_powers c \<le> 256"
    and np: "0 < N_powers c"
    by (simp_all add: bot_constants_ok_def)
  have d_small: "d mod 256 = d"
    using pre(5) N_words_le_255 [OF ok] by (simp add: d_def)
  have sf1: "same_fields bs1 bs" by (simp add: bs1_def)
  have arr1: "offset_array bs1 = (offset_array bs)(index := d)"
    by (simp add: bs1_def d_small)
  have delta: "set_offset_array_delta c index threshold blk_start bs = Inr bs1"
    using pre by (simp add: set_offset_array_delta_def check_def pointer_delta_def bs1_def d_def)
  have idx_le: "index \<le> end_index"
    unfolding end_index_def using pre(3) thr by (intro index_for_ge_address) simp
  have end1: "index_for c bs1 (blk_end - 1) = end_index"
    by (simp add: end_index_def same_fields_index [OF sf1])
  have A1: "address_for_index c bs1 = address_for_index c bs"
    by (rule same_fields_address [OF sf1])
  have thr': "blk_end \<le> address_for_index c bs end_index + N_words c"
    using address_for_index_gt [of "blk_end - 1" c bs] pre(2) by (simp add: end_index_def)
  have rem: "\<exists>bs2. (if index + 1 \<le> end_index
                  then set_remainder_to_point_to_start c sp (address_for_index c bs1 (index + 1))
                         (address_for_index c bs1 end_index + N_words c) bs1
                  else Inr bs1) = Inr bs2
      \<and> (\<forall>k. index < k \<and> k \<le> end_index \<longrightarrow> log_stamped c (offset_array bs2) index k)
      \<and> (\<forall>k. \<not> (index < k \<and> k \<le> end_index) \<longrightarrow> offset_array bs2 k = offset_array bs1 k)
      \<and> same_fields bs2 bs1"
  proof (cases "index + 1 \<le> end_index")
    case False
    then show ?thesis by auto
  next
    case True
    have lt: "address_for_index c bs (index + 1) < address_for_index c bs end_index + N_words c"
      using address_for_index_mono [OF True, of c bs] N_words_pos [of c] by linarith
    have sc: "index_for c bs1 (address_for_index c bs (index + 1)) = index + 1"
      by (simp add: same_fields_index [OF sf1])
    have ec: "index_for c bs1 (address_for_index c bs end_index + N_words c - 1) = end_index"
    proof -
      have "address_for_index c bs end_index + N_words c - 1 =
            address_for_index c bs end_index + (N_words c - 1)"
        using N_words_pos [of c] by linarith
      then show ?thesis
        using index_for_address_plus [of "N_words c - 1" c bs end_index]
        by (simp add: same_fields_index [OF sf1])
    qed
    have first1: "index_for c bs1 (r_bottom sp) < index + 1"
      using first by (simp add: same_fields_index [OF sf1])
    have prev1: "offset_array bs1 (index + 1 - 1) \<le> N_words c"
      using pre(5) by (simp add: arr1 d_def)
    have size1: "end_index < index + 1 - 1 + power_to_cards_back c (N_powers c)"
      using size by (simp add: end_index_def)
    from set_remainder_incl_spec [OF ok first1 True prev1 size1]
    obtain bs2 where incl: "set_remainder_to_point_to_start_incl c sp (index + 1) end_index bs1 = Inr bs2"
      and st: "\<forall>k. index + 1 \<le> k \<and> k \<le> end_index \<longrightarrow> log_stamped c (offset_array bs2) (index + 1 - 1) k"
      and un: "\<forall>k. \<not> (index + 1 \<le> k \<and> k \<le> end_index) \<longrightarrow> offset_array bs2 k = offset_array bs1 k"
      and sf: "same_fields bs2 bs1"
      by blast
    have "set_remainder_to_point_to_start c sp (address_for_index c bs (index + 1))
            (address_for_index c bs end_index + N_words c) bs1 = Inr bs2"
      using lt sc ec incl
      by (simp add: set_remainder_to_point_to_start_def Let_def check_def A1)
    then have "(if index + 1 \<le> end_index
                  then set_remainder_to_point_to_start c sp (address_for_index c bs1 (index + 1))
                         (address_for_index c bs1 end_index + N_words c) bs1
                  else Inr bs1) = Inr bs2"
      using True by (simp add: A1 Let_def)
    moreover have "\<forall>k. index < k \<and> k \<le> end_index \<longrightarrow> log_stamped c (offset_array bs2) index k"
      using st by simp
    moreover have "\<forall>k. \<not> (index < k \<and> k \<le> end_index) \<longrightarrow> offset_array bs2 k = offset_array bs1 k"
      using un by simp
    ultimately show ?thesis using sf by blast
  qed
  then obtain bs2 where bs2: "(if index + 1 \<le> end_index
                  then set_remainder_to_point_to_start c sp (address_for_index c bs1 (index + 1))
                         (address_for_index c bs1 end_index + N_words c) bs1
                  else Inr bs1) = Inr bs2"
    and st: "\<forall>k. index < k \<and> k \<le> end_index \<longrightarrow> log_stamped c (offset_array bs2) index k"
    and un: "\<forall>k. \<not> (index < k \<and> k \<le> end_index) \<longrightarrow> offset_array bs2 k = offset_array bs1 k"
    and sf2: "same_fields bs2 bs1"
    by blast
  have sf: "same_fields bs2 bs" using sf2 sf1 by (rule same_fields_trans)
  have A2: "address_for_index c bs2 = address_for_index c bs"
    by (rule same_fields_address [OF sf])
  have I2: "index_for c bs2 = index_for c bs"
    by (rule same_fields_index [OF sf])
  have "offset_array bs2 index = offset_array bs1 index"
    using un by simp
  then have at_index: "offset_array bs2 index = d"
    by (simp add: arr1)
  have unchanged: "\<forall>k. k < index \<or> end_index < k \<longrightarrow> offset_array bs2 k = offset_array bs k"
  proof (intro allI impI)
    fix k assume k: "k < index \<or> end_index < k"
    then have "\<not> (index < k \<and> k \<le> end_index)" by auto
    with un have "offset_array bs2 k = offset_array bs1 k" by simp
    moreover have "k \<noteq> index" using k idx_le by auto
    ultimately show "offset_array bs2 k = offset_array bs k" by (simp add: arr1)
  qed
  have stamped: "stamped_block c bs2 blk_start index end_index"
    using pre(4,5) st at_index thr by (simp add: stamped_block_def A2 d_def)
  have post1: "(offset_array bs2 index = 0 \<and> blk_start = address_for_index c bs (index_for c bs blk_start))
      \<or> (offset_array bs2 index > 0 \<and> offset_array bs2 index \<le> N_words c)"
  proof (cases "d = 0")
    case True
    then have "blk_start = threshold" using pre(4) by (simp add: d_def)
    then show ?thesis using True at_index thr by simp
  next
    case False
    then show ?thesis using at_index pre(5) by (simp add: d_def)
  qed
  have post2: "list_all (\<lambda>j. offset_array bs2 j > 0
                       \<and> offset_array bs2 j \<le> (N_words c + N_powers c - 1) mod 256)
            [Suc index ..< Suc end_index]"
  proof -
    have m: "(N_words c + N_powers c - 1) mod 256 = N_words c + N_powers c - 1"
      using fit np by simp
    have "offset_array bs2 j > 0 \<and> offset_array bs2 j \<le> (N_words c + N_powers c - 1) mod 256"
      if "j \<in> set [Suc index ..< Suc end_index]" for j
    proof -
      from that have "index < j \<and> j \<le> end_index" by auto
      with st have "log_stamped c (offset_array bs2) index j" by simp
      then obtain i where "i < N_powers c" "offset_array bs2 j = N_words c + i"
        unfolding log_stamped_def by blast
      then show ?thesis unfolding m by simp
    qed
    then show ?thesis unfolding list_all_iff by blast
  qed
  have post: "alloc_block_work_post c bs2 index end_index blk_start"
    using post1 post2 by (simp add: alloc_block_work_post_def Let_def A2 I2)
  have "alloc_block_work c sp threshold index blk_start blk_end bs =
           Inr (address_for_index c bs end_index + N_words c, end_index + 1, bs2)"
  proof -
    have c1: "blk_start \<noteq> 0 \<and> blk_end > blk_start" using pre by simp
    have c2: "blk_end > threshold" using pre by simp
    have c3: "blk_start \<le> threshold" using pre by simp
    have c4: "pointer_delta threshold blk_start \<le> N_words c"
      using pre by (simp add: pointer_delta_def)
    have c5: "is_in_semeru_reserved bs blk_start"
      using pre by (simp add: is_in_semeru_reserved_def)
    have "reserved_start bs \<le> blk_end - 1" using pre by linarith
    moreover have "blk_end - 1 < reserved_end bs" using pre by linarith
    ultimately have c6: "is_in_semeru_reserved bs (blk_end - 1)"
      by (simp add: is_in_semeru_reserved_def)
    have c7: "threshold = reserved_start bs + index * N_words c"
      using thr by (simp add: address_for_index_def)
    have c8: "address_for_index c bs end_index + N_words c \<ge> blk_end"
      using thr' by simp
    show ?thesis
      apply (simp only: alloc_block_work_def)
      apply (simp only: checks.simps c1 c2 c3 c4 c5 c6 c7 [symmetric] if_True simp_thms)
      apply (simp only: delta sum.case Let_def end1)
      apply (simp only: bs2 sum.case)
      apply (simp only: checks.simps A2 c8 post if_True)
      done
  qed
  then show ?thesis using stamped unchanged sf by (auto simp: end_index_def)
qed

lemma region_bottom_address:
  "region_on_cards c sp bs \<Longrightarrow>
   address_for_index c bs (index_for c bs (r_bottom sp)) = r_bottom sp"
proof -
  assume r: "region_on_cards c sp bs"
  then have "(r_bottom sp - reserved_start bs) mod N_words c = 0"
    and le: "reserved_start bs \<le> r_bottom sp"
    by (simp_all add: region_on_cards_def)
  then have "(r_bottom sp - reserved_start bs) div N_words c * N_words c =
             r_bottom sp - reserved_start bs"
    by (simp add: mod_eq_0_iff_dvd)
  then show ?thesis using le
    by (simp add: address_for_index_def index_for_def pointer_delta_def)
qed

lemma index_for_in_region:
  assumes r: "region_on_cards c sp bs" and "r_bottom sp \<le> p" and "p < r_end sp"
  shows "index_for c bs (r_bottom sp) \<le> index_for c bs p"
    and "index_for c bs p < index_for c bs (r_bottom sp) + power_to_cards_back c (N_powers c)"
proof -
  show "index_for c bs (r_bottom sp) \<le> index_for c bs p"
    using assms(2) by (rule index_for_mono)
  define cb where "cb = index_for c bs (r_bottom sp)"
  have A: "reserved_start bs + cb * N_words c = r_bottom sp"
    using region_bottom_address [OF r] by (simp add: address_for_index_def cb_def)
  have "p - reserved_start bs = (p - r_bottom sp) + cb * N_words c"
    using A assms(2) by linarith
  then have "index_for c bs p = (p - r_bottom sp) div N_words c + cb"
    by (simp add: index_for_def pointer_delta_def)
  moreover have "(p - r_bottom sp) div N_words c \<le> (r_end sp - r_bottom sp) div N_words c"
    using assms(3) by (intro div_le_mono) simp
  moreover have "(r_end sp - r_bottom sp) div N_words c < power_to_cards_back c (N_powers c)"
    using r by (simp add: region_on_cards_def)
  ultimately show "index_for c bs p < index_for c bs (r_bottom sp) + power_to_cards_back c (N_powers c)"
    by (simp add: cb_def)
qed

lemma stamped_block_shrink:
  "stamped_block c bs s idx k' \<Longrightarrow> k \<le> k' \<Longrightarrow> stamped_block c bs s idx k"
  by (simp add: stamped_block_def)

lemma stamped_block_cong:
  assumes "stamped_block c bs s idx k" and "reserved_start bs' = reserved_start bs"
    and "\<forall>j. j \<le> k \<longrightarrow> offset_array bs' j = offset_array bs j"
    and "idx \<le> k"
  shows "stamped_block c bs' s idx k"
proof -
  have A: "address_for_index c bs' = address_for_index c bs"
    using assms(2) by (rule address_for_index_fields)
  have "log_stamped c (offset_array bs') idx j" if "idx < j" "j \<le> k" for j
  proof -
    from assms(1) that have "log_stamped c (offset_array bs) idx j"
      by (simp add: stamped_block_def)
    moreover have "offset_array bs' j = offset_array bs j" using assms(3) that by simp
    ultimately show ?thesis by (simp add: log_stamped_def)
  qed
  moreover have "offset_array bs' idx = offset_array bs idx"
    using assms(3,4) by simp
  ultimately show ?thesis
    using assms(1) by (simp add: stamped_block_def A)
qed

lemma alloc_block_inv:
  assumes ok: "bot_constants_ok c" and reg: "region_on_cards c sp bs"
    and inv: "bot_inv c sp bs blks top_addr"
    and lt: "top_addr < e" and le: "e \<le> r_end sp"
  shows "\<exists>bs'. alloc_block c sp top_addr e bs = Inr bs'
           \<and> bot_inv c sp bs' (blks @ [(top_addr, e)]) e \<and> reserved_start bs' = reserved_start bs
           \<and> reserved_end bs' = reserved_end bs"
proof -
  define cb where "cb = index_for c bs (r_bottom sp)"
  define index where "index = next_offset_index bs"
  define threshold where "threshold = next_offset_threshold bs"
  from inv have thr: "threshold = address_for_index c bs index"
    and idx: "index = (if top_addr = r_bottom sp then cb + 1 else index_for c bs (top_addr - 1) + 1)"
    and zero: "offset_array bs cb = 0"
    and bt: "r_bottom sp \<le> top_addr"
    and cards: "\<forall>k. cb < k \<and> k < index \<longrightarrow>
            (\<exists>s e idx. (s, e) \<in> set blks \<and> cb < idx \<and> idx \<le> k
               \<and> stamped_block c bs s idx k \<and> address_for_index c bs k < e
               \<and> (address_for_index c bs idx - s = N_words c \<longrightarrow>
                    s = r_bottom sp \<and> idx = cb + 1))"
    by (simp_all add: bot_inv_def cb_def index_def threshold_def)
  from reg have rs: "reserved_start bs \<le> r_bottom sp" and pos: "0 < r_bottom sp"
    and re: "r_end sp \<le> reserved_end bs"
    by (simp_all add: region_on_cards_def)
  have Acb: "address_for_index c bs cb = r_bottom sp"
    using region_bottom_address [OF reg] by (simp add: cb_def)
  have cb_lt: "cb < index"
  proof (cases "top_addr = r_bottom sp")
    case True
    then show ?thesis by (simp add: idx)
  next
    case False
    with bt have "r_bottom sp \<le> top_addr - 1" by simp
    then have "cb \<le> index_for c bs (top_addr - 1)"
      unfolding cb_def by (rule index_for_mono)
    then show ?thesis using False by (simp add: idx)
  qed
  have top_le_thr: "top_addr \<le> threshold" and thr_top: "threshold - top_addr \<le> N_words c"
    and full: "threshold - top_addr = N_words c \<longrightarrow> top_addr = r_bottom sp \<and> index = cb + 1"
  proof -
    show "top_addr \<le> threshold"
    proof (cases "top_addr = r_bottom sp")
      case True
      then show ?thesis using Acb by (simp add: thr idx address_for_index_Suc)
    next
      case False
      then show ?thesis
        using address_for_index_gt [of "top_addr - 1" c bs]
        by (simp add: thr idx address_for_index_Suc)
    qed
    have tight: "threshold - top_addr < N_words c" if "top_addr \<noteq> r_bottom sp"
    proof -
      from that bt rs have "reserved_start bs \<le> top_addr - 1" by simp
      then have a: "address_for_index c bs (index_for c bs (top_addr - 1)) \<le> top_addr - 1"
        by (rule address_for_index_le)
      have t: "threshold = address_for_index c bs (index_for c bs (top_addr - 1)) + N_words c"
        using that by (simp add: thr idx address_for_index_Suc)
      show ?thesis unfolding t using a that bt pos N_words_pos [of c] by linarith
    qed
    show "threshold - top_addr \<le> N_words c"
    proof (cases "top_addr = r_bottom sp")
      case True
      then show ?thesis using Acb by (simp add: thr idx address_for_index_Suc)
    next
      case False
      then show ?thesis using tight by simp
    qed
    show "threshold - top_addr = N_words c \<longrightarrow> top_addr = r_bottom sp \<and> index = cb + 1"
      using tight idx by auto
  qed
  show ?thesis
  proof (cases "e > threshold")
    case False
    then have same: "alloc_block c sp top_addr e bs = Inr bs"
      by (simp add: alloc_block_def threshold_def)
    have e1: "index_for c bs (e - 1) + 1 = index"
    proof -
      from False lt have "e - 1 < address_for_index c bs index" by (simp add: thr)
      moreover have "reserved_start bs \<le> e - 1" using lt bt rs by simp
      ultimately have up: "index_for c bs (e - 1) < index" by (rule index_for_less_address [rotated])
      have "index \<le> index_for c bs (e - 1) + 1"
      proof (cases "top_addr = r_bottom sp")
        case True
        then have "r_bottom sp \<le> e - 1" using lt by simp
        then have "cb \<le> index_for c bs (e - 1)" unfolding cb_def by (rule index_for_mono)
        then show ?thesis using True by (simp add: idx)
      next
        case False
        have "top_addr - 1 \<le> e - 1" using lt by simp
        then have "index_for c bs (top_addr - 1) \<le> index_for c bs (e - 1)"
          by (rule index_for_mono)
        then show ?thesis using False by (simp add: idx)
      qed
      with up show ?thesis by simp
    qed
    have ne: "e \<noteq> r_bottom sp" using lt bt by simp
    have "bot_inv c sp bs (blks @ [(top_addr, e)]) e"
      unfolding bot_inv_def
    proof (intro conjI allI impI)
      show "next_offset_threshold bs = address_for_index c bs (next_offset_index bs)"
        using thr by (simp add: threshold_def index_def)
      show "next_offset_index bs =
          (if e = r_bottom sp then index_for c bs (r_bottom sp) + 1
           else index_for c bs (e - 1) + 1)"
        using ne e1 by (simp add: index_def)
      show "offset_array bs (index_for c bs (r_bottom sp)) = 0"
        using zero by (simp add: cb_def)
      show "r_bottom sp \<le> e" using lt bt by simp
    next
      fix k assume "index_for c bs (r_bottom sp) < k \<and> k < next_offset_index bs"
      then have "cb < k \<and> k < index" by (simp add: cb_def index_def)
      with cards obtain s e' idx' where "(s, e') \<in> set blks" "cb < idx'" "idx' \<le> k"
        "stamped_block c bs s idx' k" "address_for_index c bs k < e'"
        "address_for_index c bs idx' - s = N_words c \<longrightarrow> s = r_bottom sp \<and> idx' = cb + 1"
        by blast
      then show "\<exists>s ea idx. (s, ea) \<in> set (blks @ [(top_addr, e)])
               \<and> index_for c bs (r_bottom sp) < idx \<and> idx \<le> k
               \<and> stamped_block c bs s idx k \<and> address_for_index c bs k < ea
               \<and> (address_for_index c bs idx - s = N_words c \<longrightarrow>
                    s = r_bottom sp \<and> idx = index_for c bs (r_bottom sp) + 1)"
        unfolding cb_def [symmetric]
        by (intro exI [of _ s] exI [of _ e'] exI [of _ idx']) simp
    qed
    with same show ?thesis by simp
  next
    case True
    define end_index where "end_index = index_for c bs (e - 1)"
    have e1: "r_bottom sp \<le> e - 1" "e - 1 < r_end sp" using lt bt le by simp_all
    have size: "index_for c bs (e - 1) < index + power_to_cards_back c (N_powers c)"
      using index_for_in_region(2) [OF reg e1] cb_lt by (simp add: cb_def)
    have pre: "0 < top_addr" "top_addr < e" "threshold < e" "top_addr \<le> threshold"
      "threshold - top_addr \<le> N_words c" "reserved_start bs \<le> top_addr" "e \<le> reserved_end bs"
      using pos bt lt True top_le_thr thr_top rs le re by simp_all
    from alloc_block_work_spec [OF ok pre thr _ size] cb_lt
    obtain bs2 where work: "alloc_block_work c sp threshold index top_addr e bs =
           Inr (address_for_index c bs end_index + N_words c, end_index + 1, bs2)"
      and st: "stamped_block c bs2 top_addr index end_index"
      and un: "\<forall>k. k < index \<or> end_index < k \<longrightarrow> offset_array bs2 k = offset_array bs k"
      and sf: "same_fields bs2 bs"
      unfolding end_index_def cb_def by blast
    define bs' where "bs' = bs2\<lparr>next_offset_threshold := address_for_index c bs end_index + N_words c,
                                next_offset_index := end_index + 1\<rparr>"
    have res: "alloc_block c sp top_addr e bs = Inr bs'"
      using True work by (simp add: alloc_block_def threshold_def index_def bs'_def)
    have rs': "reserved_start bs' = reserved_start bs" "reserved_end bs' = reserved_end bs"
      using sf by (simp_all add: bs'_def same_fields_def)
    have A': "address_for_index c bs' = address_for_index c bs"
      using rs'(1) by (rule address_for_index_fields)
    have I': "index_for c bs' = index_for c bs"
      using rs'(1) by (rule index_for_fields)
    have arr': "offset_array bs' = offset_array bs2" by (simp add: bs'_def)
    have idx_le: "index \<le> end_index"
      unfolding end_index_def using True thr by (intro index_for_ge_address) simp
    have ne: "e \<noteq> r_bottom sp" using lt bt by simp
    have "bot_inv c sp bs' (blks @ [(top_addr, e)]) e"
      unfolding bot_inv_def A' I'
    proof (intro conjI allI impI)
      show "next_offset_threshold bs' = address_for_index c bs (next_offset_index bs')"
        by (simp add: bs'_def address_for_index_Suc)
      show "next_offset_index bs' =
          (if e = r_bottom sp then index_for c bs (r_bottom sp) + 1
           else index_for c bs (e - 1) + 1)"
        using ne by (simp add: bs'_def end_index_def)
      show "offset_array bs' (index_for c bs (r_bottom sp)) = 0"
        using zero un cb_lt by (simp add: arr' cb_def)
      show "r_bottom sp \<le> e" using lt bt by simp
    next
      fix k assume "index_for c bs (r_bottom sp) < k \<and> k < next_offset_index bs'"
      then have k: "cb < k" "k \<le> end_index" by (simp_all add: cb_def bs'_def)
      show "\<exists>s ea idx. (s, ea) \<in> set (blks @ [(top_addr, e)])
               \<and> index_for c bs (r_bottom sp) < idx \<and> idx \<le> k
               \<and> stamped_block c bs' s idx k \<and> address_for_index c bs k < ea
               \<and> (address_for_index c bs idx - s = N_words c \<longrightarrow>
                    s = r_bottom sp \<and> idx = index_for c bs (r_bottom sp) + 1)"
      proof (cases "k < index")
        case True
        with cards k obtain s e' idx' where w: "(s, e') \<in> set blks" "cb < idx'" "idx' \<le> k"
          "stamped_block c bs s idx' k" "address_for_index c bs k < e'"
          "address_for_index c bs idx' - s = N_words c \<longrightarrow> s = r_bottom sp \<and> idx' = cb + 1"
          by blast
        have "\<forall>j. j \<le> k \<longrightarrow> offset_array bs' j = offset_array bs j"
          using un True by (simp add: arr')
        with w(4) rs'(1) have "stamped_block c bs' s idx' k"
          using w(3) by (rule stamped_block_cong)
        with w show ?thesis
          unfolding cb_def [symmetric]
          by (intro exI [of _ s] exI [of _ e'] exI [of _ idx']) simp
      next
        case False
        then have ik: "index \<le> k" by simp
        have "stamped_block c bs2 top_addr index k"
          using st k(2) by (rule stamped_block_shrink)
        then have s1: "stamped_block c bs' top_addr index k"
          using rs'(1) sf by (simp add: stamped_block_def A' arr' same_fields_address)
        have "reserved_start bs \<le> e - 1" using e1(1) rs by simp
        then have "address_for_index c bs end_index \<le> e - 1"
          unfolding end_index_def by (rule address_for_index_le)
        moreover have "address_for_index c bs k \<le> address_for_index c bs end_index"
          using k(2) by (rule address_for_index_mono)
        ultimately have s2: "address_for_index c bs k < e" using lt by simp
        have s3: "address_for_index c bs index - top_addr = N_words c \<longrightarrow>
                    top_addr = r_bottom sp \<and> index = cb + 1"
          using full by (simp add: thr)
        show ?thesis
          unfolding cb_def [symmetric]
          using cb_lt ik s1 s2 s3
          by (intro exI [of _ top_addr] exI [of _ e] exI [of _ index]) simp
      qed
    qed
    with res rs' show ?thesis by simp
  qed
qed

lemma region_on_cards_cong:
  "region_on_cards c sp bs \<Longrightarrow> reserved_start bs' = reserved_start bs \<Longrightarrow>
   reserved_end bs' = reserved_end bs \<Longrightarrow> region_on_cards c sp bs'"
  by (simp add: region_on_cards_def)

lemma part_reset_bot_inv:
  assumes reg: "region_on_cards c sp bs"
  shows "\<exists>bs'. part_reset_bot c sp bs = Inr bs' \<and> bot_inv c sp bs' [] (r_bottom sp)
           \<and> reserved_start bs' = reserved_start bs \<and> reserved_end bs' = reserved_end bs"
proof -
  define cb where "cb = index_for c bs (r_bottom sp)"
  define bs1 where "bs1 = set_offset_array cb 0 bs"
  define bs2 where "bs2 = initialize_threshold_raw c sp bs1"
  have Acb: "address_for_index c bs cb = r_bottom sp"
    using region_bottom_address [OF reg] by (simp add: cb_def)
  have z: "zero_bottom_entry_raw c sp bs = Inr bs1"
    using Acb by (simp add: zero_bottom_entry_raw_def Let_def check_def cb_def bs1_def)
  have sf1: "same_fields bs1 bs" by (simp add: bs1_def)
  have r1: "reserved_start bs1 = reserved_start bs" "reserved_end bs1 = reserved_end bs"
    using sf1 by (simp_all add: same_fields_def)
  have I1: "index_for c bs1 = index_for c bs" using r1(1) by (rule index_for_fields)
  have A1: "address_for_index c bs1 = address_for_index c bs"
    using r1(1) by (rule address_for_index_fields)
  have r2: "reserved_start bs2 = reserved_start bs" "reserved_end bs2 = reserved_end bs"
    using r1 by (simp_all add: bs2_def initialize_threshold_raw_def Let_def)
  have I2: "index_for c bs2 = index_for c bs" using r2(1) by (rule index_for_fields)
  have A2: "address_for_index c bs2 = address_for_index c bs"
    using r2(1) by (rule address_for_index_fields)
  have f2: "next_offset_index bs2 = cb + 1"
    "next_offset_threshold bs2 = address_for_index c bs (cb + 1)"
    "offset_array bs2 = (offset_array bs)(cb := 0)"
  proof -
    have "next_offset_index bs2 = index_for c bs1 (r_bottom sp) + 1"
      by (simp add: bs2_def initialize_threshold_raw_def Let_def)
    then show "next_offset_index bs2 = cb + 1" by (simp add: I1 cb_def)
    have "next_offset_threshold bs2 =
          address_for_index c bs1 (index_for c bs1 (r_bottom sp) + 1)"
      by (simp add: bs2_def initialize_threshold_raw_def Let_def)
    then show "next_offset_threshold bs2 = address_for_index c bs (cb + 1)"
      by (simp add: I1 A1 cb_def)
    have "offset_array bs2 = offset_array bs1"
      by (simp add: bs2_def initialize_threshold_raw_def Let_def)
    then show "offset_array bs2 = (offset_array bs)(cb := 0)"
      by (simp add: bs1_def)
  qed
  have "bot_inv c sp bs2 [] (r_bottom sp)"
    unfolding bot_inv_def I2 A2 by (simp add: f2 cb_def)
  moreover have "part_reset_bot c sp bs = Inr bs2"
    by (simp add: part_reset_bot_def z bs2_def)
  ultimately show ?thesis using r2 by simp
qed

lemma alloc_blocks_inv:
  assumes ok: "bot_constants_ok c"
  shows "region_on_cards c sp bs \<Longrightarrow> bot_inv c sp bs done top_addr \<Longrightarrow>
         contiguous_blocks top_addr todo \<Longrightarrow> blocks_end top_addr todo \<le> r_end sp \<Longrightarrow>
         \<exists>bs'. alloc_blocks c sp todo bs = Inr bs'
           \<and> bot_inv c sp bs' (done @ todo) (blocks_end top_addr todo)
           \<and> reserved_start bs' = reserved_start bs \<and> reserved_end bs' = reserved_end bs"
proof (induction todo arbitrary: bs "done" top_addr)
  case Nil
  then show ?case by simp
next
  case (Cons blk todo)
  obtain s e where blk: "blk = (s, e)" by (cases blk)
  from Cons.prems(3) blk have s: "s = top_addr" and lt: "top_addr < e"
    and rest: "contiguous_blocks e todo"
    by simp_all
  have mono: "a \<le> blocks_end a bl" if "contiguous_blocks a bl" for a bl
    using that
  proof (induction bl arbitrary: a)
    case Nil
    show ?case by simp
  next
    case (Cons x xs)
    obtain s' e' where x: "x = (s', e')" by (cases x)
    with Cons.prems have "a < e'" "contiguous_blocks e' xs" by simp_all
    with Cons.IH [of e'] show ?case by (simp add: x)
  qed
  from Cons.prems(4) blk have end_le: "blocks_end e todo \<le> r_end sp" by simp
  with mono [OF rest] have le: "e \<le> r_end sp" by simp
  from alloc_block_inv [OF ok Cons.prems(1,2) lt le]
  obtain bs1 where a1: "alloc_block c sp top_addr e bs = Inr bs1"
    and inv1: "bot_inv c sp bs1 (done @ [(top_addr, e)]) e"
    and r1: "reserved_start bs1 = reserved_start bs" "reserved_end bs1 = reserved_end bs"
    by blast
  have reg1: "region_on_cards c sp bs1"
    using Cons.prems(1) r1 by (rule region_on_cards_cong)
  from Cons.IH [OF reg1 inv1 rest end_le]
  obtain bs' where "alloc_blocks c sp todo bs1 = Inr bs'"
    "bot_inv c sp bs' ((done @ [(top_addr, e)]) @ todo) (blocks_end e todo)"
    "reserved_start bs' = reserved_start bs1" "reserved_end bs' = reserved_end bs1"
    by blast
  then show ?case using a1 r1 by (simp add: blk s)
qed

lemma block_at_or_preceding_loop_log:
  "n = power_to_cards_back c i \<Longrightarrow> n \<le> index \<Longrightarrow>
   block_at_or_preceding_loop c bs q index (N_words c + i) =
   block_at_or_preceding_loop c bs (q - N_words c * n) (index - n) (offset_array bs (index - n))"
  by (subst block_at_or_preceding_loop.simps) (simp add: Let_def)

lemma block_at_or_preceding_loop_direct:
  "offset < N_words c \<Longrightarrow> block_at_or_preceding_loop c bs q index offset = Inr (q - offset)"
  by (subst block_at_or_preceding_loop.simps) simp

lemma stamped_block_walk:
  assumes ok: "bot_constants_ok c"
    and st: "stamped_block c bs s idx k"
    and low: "cb < idx" "offset_array bs cb = 0" "address_for_index c bs cb = r_bottom sp"
    and full: "address_for_index c bs idx - s = N_words c \<longrightarrow> s = r_bottom sp \<and> idx = cb + 1"
  shows "idx \<le> j \<Longrightarrow> j \<le> k \<Longrightarrow>
         block_at_or_preceding_loop c bs (address_for_index c bs j) j (offset_array bs j) = Inr s"
proof (induction j rule: less_induct)
  case (less j)
  from st have s_le: "s \<le> address_for_index c bs idx"
    and d_le: "address_for_index c bs idx - s \<le> N_words c"
    and d: "offset_array bs idx = address_for_index c bs idx - s"
    by (simp_all add: stamped_block_def)
  show ?case
  proof (cases "j = idx")
    case True
    show ?thesis
    proof (cases "address_for_index c bs idx - s = N_words c")
      case False
      with d_le have "offset_array bs idx < N_words c" by (simp add: d)
      then have "block_at_or_preceding_loop c bs (address_for_index c bs idx) idx (offset_array bs idx)
                 = Inr (address_for_index c bs idx - offset_array bs idx)"
        by (rule block_at_or_preceding_loop_direct)
      then show ?thesis using s_le True by (simp add: d)
    next
      case full_d: True
      with full have sb: "s = r_bottom sp" and i1: "idx = cb + 1" by simp_all
      have e: "offset_array bs idx = N_words c + 0" using full_d by (simp add: d)
      have "block_at_or_preceding_loop c bs (address_for_index c bs idx) idx (N_words c + 0) =
            block_at_or_preceding_loop c bs (address_for_index c bs idx - N_words c * 1) (idx - 1)
              (offset_array bs (idx - 1))"
        using i1 by (intro block_at_or_preceding_loop_log) simp_all
      also have "address_for_index c bs idx - N_words c * 1 = address_for_index c bs cb"
        by (simp add: i1 address_for_index_Suc)
      also have "idx - 1 = cb" by (simp add: i1)
      also have "block_at_or_preceding_loop c bs (address_for_index c bs cb) cb (offset_array bs cb)
                 = Inr (address_for_index c bs cb - offset_array bs cb)"
        using low(2) by (intro block_at_or_preceding_loop_direct) simp
      finally show ?thesis using True sb low(2,3) by (simp only: e) simp
    qed
  next
    case False
    with less.prems have lt: "idx < j" by simp
    with st less.prems have "log_stamped c (offset_array bs) idx j"
      by (simp add: stamped_block_def)
    then obtain i where i: "offset_array bs j = N_words c + i"
      "power_to_cards_back c i \<le> j - idx"
      unfolding log_stamped_def by blast
    define n where "n = power_to_cards_back c i"
    have n_pos: "0 < n" by (simp add: n_def)
    have n_le: "n \<le> j - idx" using i(2) by (simp add: n_def)
    have n_le_j: "n \<le> j" using n_le by simp
    have step: "block_at_or_preceding_loop c bs (address_for_index c bs j) j (N_words c + i) =
            block_at_or_preceding_loop c bs (address_for_index c bs j - N_words c * n) (j - n)
              (offset_array bs (j - n))"
      using n_def n_le_j by (rule block_at_or_preceding_loop_log)
    define m where "m = j - n"
    have jm: "j = m + n" using n_le by (simp add: m_def)
    have "address_for_index c bs (m + n) = address_for_index c bs m + N_words c * n"
      by (simp add: address_for_index_def algebra_simps)
    then have q: "address_for_index c bs j - N_words c * n = address_for_index c bs (j - n)"
      unfolding jm by simp
    have "block_at_or_preceding_loop c bs (address_for_index c bs (j - n)) (j - n)
              (offset_array bs (j - n)) = Inr s"
      using n_pos n_le lt less.prems by (intro less.IH) simp_all
    with step q show ?thesis by (simp add: i(1))
  qed
qed

lemma bot_inv_card:
  assumes ok: "bot_constants_ok c" and reg: "region_on_cards c sp bs"
    and inv: "bot_inv c sp bs blks top_addr"
    and k: "index_for c bs (r_bottom sp) < k" "k < next_offset_index bs"
  shows "\<exists>s e. (s, e) \<in> set blks \<and> s \<le> address_for_index c bs k \<and> address_for_index c bs k < e
           \<and> block_at_or_preceding_loop c bs (address_for_index c bs k) k (offset_array bs k) = Inr s"
    and "N_words c \<le> offset_array bs k \<longrightarrow>
           1 \<le> entry_to_cards_back c (offset_array bs k)
         \<and> entry_to_cards_back c (offset_array bs k) \<le> k - index_for c bs (r_bottom sp)
         \<and> offset_array bs (k - entry_to_cards_back c (offset_array bs k)) \<le> offset_array bs k"
proof -
  define cb where "cb = index_for c bs (r_bottom sp)"
  from ok have lb: "0 < LogBase c" by (simp add: bot_constants_ok_def)
  from inv have zero: "offset_array bs cb = 0" by (simp add: bot_inv_def cb_def)
  have Acb: "address_for_index c bs cb = r_bottom sp"
    using region_bottom_address [OF reg] by (simp add: cb_def)
  from inv k obtain s e idx where w: "(s, e) \<in> set blks" "cb < idx" "idx \<le> k"
    "stamped_block c bs s idx k" "address_for_index c bs k < e"
    "address_for_index c bs idx - s = N_words c \<longrightarrow> s = r_bottom sp \<and> idx = cb + 1"
    unfolding bot_inv_def cb_def by blast
  from w(4) have s_le: "s \<le> address_for_index c bs idx"
    and d_le: "address_for_index c bs idx - s \<le> N_words c"
    and d: "offset_array bs idx = address_for_index c bs idx - s"
    by (simp_all add: stamped_block_def)
  have walk: "block_at_or_preceding_loop c bs (address_for_index c bs k) k (offset_array bs k) = Inr s"
    using ok w(4,2) zero Acb w(6) w(3) by (rule stamped_block_walk) simp
  have "s \<le> address_for_index c bs k"
    using s_le address_for_index_mono [OF w(3), of c bs] by simp
  with w(1,5) walk
  show "\<exists>s e. (s, e) \<in> set blks \<and> s \<le> address_for_index c bs k \<and> address_for_index c bs k < e
           \<and> block_at_or_preceding_loop c bs (address_for_index c bs k) k (offset_array bs k) = Inr s"
    by blast
  show "N_words c \<le> offset_array bs k \<longrightarrow>
           1 \<le> entry_to_cards_back c (offset_array bs k)
         \<and> entry_to_cards_back c (offset_array bs k) \<le> k - index_for c bs (r_bottom sp)
         \<and> offset_array bs (k - entry_to_cards_back c (offset_array bs k)) \<le> offset_array bs k"
  proof (cases "k = idx")
    case True
    show ?thesis
    proof
      assume "N_words c \<le> offset_array bs k"
      with d_le True have full: "address_for_index c bs idx - s = N_words c" by (simp add: d)
      with w(6) have i1: "idx = cb + 1" by simp
      have e: "offset_array bs k = N_words c + 0" using full True by (simp add: d)
      have b: "entry_to_cards_back c (offset_array bs k) = 1"
        unfolding e by (simp add: entry_to_cards_back_def)
      show "1 \<le> entry_to_cards_back c (offset_array bs k)
         \<and> entry_to_cards_back c (offset_array bs k) \<le> k - index_for c bs (r_bottom sp)
         \<and> offset_array bs (k - entry_to_cards_back c (offset_array bs k)) \<le> offset_array bs k"
        unfolding b using True i1 zero by (simp add: cb_def [symmetric])
    qed
  next
    case False
    with w(3) have lt: "idx < k" by simp
    with w(4) have "log_stamped c (offset_array bs) idx k" by (simp add: stamped_block_def)
    then obtain i where i: "offset_array bs k = N_words c + i"
      "power_to_cards_back c i \<le> k - idx" "k - idx < power_to_cards_back c (i + 1)"
      unfolding log_stamped_def by blast
    define n where "n = power_to_cards_back c i"
    have b: "entry_to_cards_back c (offset_array bs k) = n" by (simp add: i(1) n_def)
    have n_pos: "1 \<le> n" unfolding n_def power_to_cards_back_def by simp
    have n_le: "n \<le> k - idx" using i(2) by (simp add: n_def)
    have mono: "offset_array bs (k - n) \<le> offset_array bs k"
    proof (cases "k - n = idx")
      case True
      then show ?thesis using d_le by (simp add: d i(1))
    next
      case False
      with n_le lt have "idx < k - n" by linarith
      moreover have "k - n \<le> k" by simp
      ultimately have "log_stamped c (offset_array bs) idx (k - n)"
        using w(4) by (simp add: stamped_block_def)
      then obtain i' where i': "offset_array bs (k - n) = N_words c + i'"
        "power_to_cards_back c i' \<le> k - n - idx"
        unfolding log_stamped_def by blast
      from i'(2) i(3) have "power_to_cards_back c i' < power_to_cards_back c (i + 1)"
        by linarith
      then have "i' \<le> i" using lb by (simp add: power_to_cards_back_less_iff)
      then show ?thesis by (simp add: i' i(1))
    qed
    have "n \<le> k - cb" using n_le w(2) by linarith
    then show ?thesis unfolding b using n_pos mono by (simp add: cb_def)
  qed
qed

lemma part_on_cards_region:
  "part_on_cards c sp bs lim = region_on_cards c (sp\<lparr>r_end := lim\<rparr>) bs"
  by (simp add: part_on_cards_def region_on_cards_def)

lemma initialize_threshold_raw_end:
  "initialize_threshold_raw c (sp\<lparr>r_end := lim\<rparr>) = initialize_threshold_raw c sp"
  by (rule ext) (simp add: initialize_threshold_raw_def)

lemma zero_bottom_entry_raw_end:
  "zero_bottom_entry_raw c (sp\<lparr>r_end := lim\<rparr>) = zero_bottom_entry_raw c sp"
  by (rule ext) (simp add: zero_bottom_entry_raw_def)

lemma part_reset_bot_end: "part_reset_bot c (sp\<lparr>r_end := lim\<rparr>) bs = part_reset_bot c sp bs"
  unfolding part_reset_bot_def initialize_threshold_raw_end zero_bottom_entry_raw_end
  by (rule refl)

lemma set_remainder_incl_end:
  "set_remainder_to_point_to_start_incl c (sp\<lparr>r_end := lim\<rparr>) =
   set_remainder_to_point_to_start_incl c sp"
  by (rule ext)+ (simp add: set_remainder_to_point_to_start_incl_def)

lemma set_remainder_end:
  "set_remainder_to_point_to_start c (sp\<lparr>r_end := lim\<rparr>) =
   set_remainder_to_point_to_start c sp"
  apply (rule ext)+
  unfolding set_remainder_to_point_to_start_def set_remainder_incl_end
  apply (rule refl)
  done

lemma alloc_block_work_end:
  "alloc_block_work c (sp\<lparr>r_end := lim\<rparr>) = alloc_block_work c sp"
  apply (rule ext)+
  unfolding alloc_block_work_def set_remainder_end
  apply (rule refl)
  done

lemma alloc_block_end:
  "alloc_block c (sp\<lparr>r_end := lim\<rparr>) s e bs = alloc_block c sp s e bs"
  unfolding alloc_block_def alloc_block_work_end by (rule refl)

lemma alloc_blocks_end:
  "alloc_blocks c (sp\<lparr>r_end := lim\<rparr>) blks bs = alloc_blocks c sp blks bs"
  by (induction blks arbitrary: bs) (auto simp: alloc_block_end split: sum.splits)


lemma contiguous_blocks_first:
  "contiguous_blocks a blks \<Longrightarrow> a < blocks_end a blks \<Longrightarrow> \<exists>e. (a, e) \<in> set blks \<and> a < e"
  by (cases blks) auto

text \<open>
  Claim C4. Take the cards from the bottom of a region up to a limit: the end of the
  region, or the end of the last region that a humongous object starting here covers.
  After a reset of the part and any sequence of \<^verbatim>\<open>alloc_block\<close> calls for ranges as
  bump-pointer allocation produces them below the limit (the calls all succeed), look at
  any card from the bottom card on whose first word lies below the end of the last
  range. The chain of back skips from the card ends at the start of the recorded block
  that covers the card's first word; an entry below \<open>N_words\<close> is the distance from the
  card's first word back to that start. When the entry is a back-skip code (an entry of
  at least \<open>N_words\<close>, which includes the entries above \<open>N_words\<close>), it decodes to a back
  skip of at least one card that does not go back beyond the region's first card and
  lands on a card whose entry is at most the entry of the card itself.
\<close>

theorem backward_skips_well_formed:
  assumes "bot_constants_ok c" and "part_on_cards c sp bs0 lim"
    and "contiguous_blocks (r_bottom sp) blks" and "blocks_end (r_bottom sp) blks \<le> lim"
  shows "\<exists>bs1 bs. part_reset_bot c sp bs0 = Inr bs1 \<and> alloc_blocks c sp blks bs1 = Inr bs
     \<and> (\<forall>k. index_for c bs0 (r_bottom sp) \<le> k
             \<and> address_for_index c bs0 k < blocks_end (r_bottom sp) blks \<longrightarrow>
           (\<exists>s e. (s, e) \<in> set blks \<and> s \<le> address_for_index c bs0 k
               \<and> address_for_index c bs0 k < e
               \<and> block_at_or_preceding_loop c bs (address_for_index c bs0 k) k (offset_array bs k)
                   = Inr s
               \<and> (offset_array bs k < N_words c \<longrightarrow>
                    offset_array bs k = address_for_index c bs0 k - s))
         \<and> (N_words c \<le> offset_array bs k \<longrightarrow>
               1 \<le> entry_to_cards_back c (offset_array bs k)
             \<and> entry_to_cards_back c (offset_array bs k) \<le> k - index_for c bs0 (r_bottom sp)
             \<and> offset_array bs (k - entry_to_cards_back c (offset_array bs k))
                 \<le> offset_array bs k))"
proof -
  define sp1 where "sp1 = sp\<lparr>r_end := lim\<rparr>"
  have b1: "r_bottom sp1 = r_bottom sp" and e1: "r_end sp1 = lim" by (simp_all add: sp1_def)
  have reg0: "region_on_cards c sp1 bs0"
    using assms(2) by (simp add: part_on_cards_region sp1_def)
  from part_reset_bot_inv [OF reg0]
  obtain bs1 where r: "part_reset_bot c sp1 bs0 = Inr bs1"
    and inv1: "bot_inv c sp1 bs1 [] (r_bottom sp1)"
    and r1: "reserved_start bs1 = reserved_start bs0" "reserved_end bs1 = reserved_end bs0"
    by blast
  have reg1: "region_on_cards c sp1 bs1" using reg0 r1 by (rule region_on_cards_cong)
  have c1: "contiguous_blocks (r_bottom sp1) blks"
    and l1: "blocks_end (r_bottom sp1) blks \<le> r_end sp1"
    using assms(3,4) by (simp_all add: b1 e1)
  from alloc_blocks_inv [OF assms(1) reg1 inv1 c1 l1]
  obtain bs where a: "alloc_blocks c sp1 blks bs1 = Inr bs"
    and inv: "bot_inv c sp1 bs blks (blocks_end (r_bottom sp) blks)"
    and r2: "reserved_start bs = reserved_start bs1" "reserved_end bs = reserved_end bs1"
    by (auto simp: b1)
  have reg: "region_on_cards c sp1 bs" using reg1 r2 by (rule region_on_cards_cong)
  have rs: "reserved_start bs = reserved_start bs0" using r1 r2 by simp
  have A: "address_for_index c bs0 = address_for_index c bs"
    using rs by (intro address_for_index_fields) simp
  have I: "index_for c bs0 = index_for c bs"
    using rs by (intro index_for_fields) simp
  define cb where "cb = index_for c bs (r_bottom sp)"
  define top_addr where "top_addr = blocks_end (r_bottom sp) blks"
  have Acb: "address_for_index c bs cb = r_bottom sp"
    using region_bottom_address [OF reg] by (simp add: cb_def b1)
  have zero: "offset_array bs cb = 0"
    using inv by (simp add: bot_inv_def cb_def b1)
  have card: "(\<exists>s e. (s, e) \<in> set blks \<and> s \<le> address_for_index c bs k
               \<and> address_for_index c bs k < e
               \<and> block_at_or_preceding_loop c bs (address_for_index c bs k) k (offset_array bs k)
                   = Inr s
               \<and> (offset_array bs k < N_words c \<longrightarrow>
                    offset_array bs k = address_for_index c bs k - s))
         \<and> (N_words c \<le> offset_array bs k \<longrightarrow>
               1 \<le> entry_to_cards_back c (offset_array bs k)
             \<and> entry_to_cards_back c (offset_array bs k) \<le> k - cb
             \<and> offset_array bs (k - entry_to_cards_back c (offset_array bs k))
                 \<le> offset_array bs k)"
    if k: "cb \<le> k" "address_for_index c bs k < top_addr" for k
  proof (cases "k = cb")
    case True
    have "r_bottom sp < blocks_end (r_bottom sp) blks"
      using k(2) True Acb by (simp add: top_addr_def)
    from contiguous_blocks_first [OF assms(3) this]
    obtain e where e: "(r_bottom sp, e) \<in> set blks" "r_bottom sp < e" by blast
    have "block_at_or_preceding_loop c bs (address_for_index c bs k) k (offset_array bs k)
            = Inr (r_bottom sp)"
      using True zero Acb by (simp add: block_at_or_preceding_loop_direct)
    moreover have "0 < N_words c" by simp
    hence "\<not> N_words c \<le> offset_array bs k" using True zero by simp
    moreover have "offset_array bs k = address_for_index c bs k - r_bottom sp"
      using True zero Acb by simp
    moreover have "r_bottom sp \<le> address_for_index c bs k" "address_for_index c bs k < e"
      using True Acb e(2) by simp_all
    ultimately show ?thesis using e(1)
      by (intro conjI exI [of _ "r_bottom sp"] exI [of _ e]) simp_all
  next
    case False
    with k(1) have lt: "cb < k" by simp
    have bt: "r_bottom sp < top_addr"
      using k(2) Acb address_for_index_mono [OF k(1), of c bs] by simp
    have "next_offset_index bs = index_for c bs (top_addr - 1) + 1"
      using inv bt by (simp add: bot_inv_def top_addr_def b1)
    moreover have "index_for c bs (address_for_index c bs k) \<le> index_for c bs (top_addr - 1)"
      using k(2) by (intro index_for_mono) simp
    ultimately have kn: "k < next_offset_index bs" by simp
    have lt1: "index_for c bs (r_bottom sp1) < k" using lt by (simp add: cb_def b1)
    note bc = bot_inv_card [OF assms(1) reg inv lt1 kn]
    from bc(1) obtain s e where se: "(s, e) \<in> set blks" "s \<le> address_for_index c bs k"
      "address_for_index c bs k < e"
      "block_at_or_preceding_loop c bs (address_for_index c bs k) k (offset_array bs k) = Inr s"
      by blast
    have off: "offset_array bs k = address_for_index c bs k - s" if d: "offset_array bs k < N_words c"
    proof -
      from se(4) d have "s = address_for_index c bs k - offset_array bs k"
        by (simp add: block_at_or_preceding_loop_direct)
      moreover have "N_words c \<le> address_for_index c bs k"
      proof -
        from lt have "N_words c \<le> k * N_words c" by (cases k) simp_all
        thus ?thesis unfolding address_for_index_def by (rule trans_le_add2)
      qed
      ultimately show ?thesis using d by simp
    qed
    from bc(2) have B: "N_words c \<le> offset_array bs k \<longrightarrow>
               1 \<le> entry_to_cards_back c (offset_array bs k)
             \<and> entry_to_cards_back c (offset_array bs k) \<le> k - cb
             \<and> offset_array bs (k - entry_to_cards_back c (offset_array bs k))
                 \<le> offset_array bs k"
      by (simp add: cb_def b1)
    have "\<exists>s e. (s, e) \<in> set blks \<and> s \<le> address_for_index c bs k
               \<and> address_for_index c bs k < e
               \<and> block_at_or_preceding_loop c bs (address_for_index c bs k) k (offset_array bs k)
                   = Inr s
               \<and> (offset_array bs k < N_words c \<longrightarrow>
                    offset_array bs k = address_for_index c bs k - s)"
      using se off by (intro exI [of _ s] exI [of _ e]) simp
    with B show ?thesis by (rule conjI [rotated])
  qed
  have R: "part_reset_bot c sp bs0 = Inr bs1" using r by (simp add: sp1_def part_reset_bot_end)
  have Al: "alloc_blocks c sp blks bs1 = Inr bs" using a by (simp add: sp1_def alloc_blocks_end)
  have all: "\<forall>k. index_for c bs0 (r_bottom sp) \<le> k
             \<and> address_for_index c bs0 k < blocks_end (r_bottom sp) blks \<longrightarrow>
           (\<exists>s e. (s, e) \<in> set blks \<and> s \<le> address_for_index c bs0 k
               \<and> address_for_index c bs0 k < e
               \<and> block_at_or_preceding_loop c bs (address_for_index c bs0 k) k (offset_array bs k)
                   = Inr s
               \<and> (offset_array bs k < N_words c \<longrightarrow>
                    offset_array bs k = address_for_index c bs0 k - s))
         \<and> (N_words c \<le> offset_array bs k \<longrightarrow>
               1 \<le> entry_to_cards_back c (offset_array bs k)
             \<and> entry_to_cards_back c (offset_array bs k) \<le> k - index_for c bs0 (r_bottom sp)
             \<and> offset_array bs (k - entry_to_cards_back c (offset_array bs k))
                 \<le> offset_array bs k)"
    unfolding A I
  proof (intro allI impI)
    fix k
    assume "index_for c bs (r_bottom sp) \<le> k
             \<and> address_for_index c bs k < blocks_end (r_bottom sp) blks"
    hence k1: "cb \<le> k" and k2: "address_for_index c bs k < top_addr"
      by (simp_all add: cb_def top_addr_def)
    from card [OF k1 k2]
    show "(\<exists>s e. (s, e) \<in> set blks \<and> s \<le> address_for_index c bs k
               \<and> address_for_index c bs k < e
               \<and> block_at_or_preceding_loop c bs (address_for_index c bs k) k (offset_array bs k)
                   = Inr s
               \<and> (offset_array bs k < N_words c \<longrightarrow>
                    offset_array bs k = address_for_index c bs k - s))
         \<and> (N_words c \<le> offset_array bs k \<longrightarrow>
               1 \<le> entry_to_cards_back c (offset_array bs k)
             \<and> entry_to_cards_back c (offset_array bs k) \<le> k - index_for c bs (r_bottom sp)
             \<and> offset_array bs (k - entry_to_cards_back c (offset_array bs k))
                 \<le> offset_array bs k)"
      unfolding cb_def .
  qed
  show ?thesis
    by (rule exI [of _ bs1], rule exI [of _ bs], intro conjI) (fact R, fact Al, fact all)
qed

lemma set_for_starts_humongous_blocks:
  "0 < fill_size \<Longrightarrow>
   set_for_starts_humongous c sp obj_top fill_size bs =
     (case part_reset_bot c sp bs of
        Inl e \<Rightarrow> Inl e
      | Inr bs1 \<Rightarrow> alloc_blocks c sp [(r_bottom sp, obj_top), (obj_top, obj_top + fill_size)] bs1)"
  by (simp add: set_for_starts_humongous_def split: sum.splits)

lemma example_part_on_cards:
  "part_on_cards example_constants example_space example_table (r_end example_space)"
  "part_on_cards example_constants humongous_space example_table 3008"
  by (simp_all add: part_on_cards_def example_constants_def example_space_def humongous_space_def
      example_table_def example_region_def N_words_def power_to_cards_back_def)

theorem backward_skips_well_formed_witness:
  "(\<exists>bs1 bs. part_reset_bot example_constants example_space example_table = Inr bs1
       \<and> alloc_blocks example_constants example_space example_blocks bs1 = Inr bs
       \<and> N_words example_constants \<le> offset_array bs 3
       \<and> 1 \<le> entry_to_cards_back example_constants (offset_array bs 3)
       \<and> entry_to_cards_back example_constants (offset_array bs 3) \<le> 2
       \<and> block_at_or_preceding_loop example_constants bs 1216 3 (offset_array bs 3) = Inr 1098)
   \<and> (\<exists>bs. set_for_starts_humongous example_constants humongous_space 2500 60 example_table
              = Inr bs
       \<and> N_words example_constants \<le> offset_array bs 20
       \<and> 1 \<le> entry_to_cards_back example_constants (offset_array bs 20)
       \<and> entry_to_cards_back example_constants (offset_array bs 20) \<le> 19
       \<and> block_at_or_preceding_loop example_constants bs 2304 20 (offset_array bs 20) = Inr 1088)"
proof -
  have ok: "bot_constants_ok example_constants"
    by (simp add: bot_constants_ok_def example_constants_def N_words_def)
  have g: "index_for example_constants example_table (r_bottom example_space) = 1"
    "index_for example_constants example_table (r_bottom humongous_space) = 1"
    "address_for_index example_constants example_table 3 = 1216"
    "address_for_index example_constants example_table 20 = 2304"
    "N_words example_constants = 64"
    by (simp_all add: index_for_def address_for_index_def pointer_delta_def N_words_def
        example_constants_def example_table_def example_space_def humongous_space_def)
  have c1: "contiguous_blocks (r_bottom example_space) example_blocks"
    and l1: "blocks_end (r_bottom example_space) example_blocks \<le> r_end example_space"
    and e1: "blocks_end (r_bottom example_space) example_blocks = 1300"
    by (simp_all add: example_space_def example_blocks_def)
  from backward_skips_well_formed [OF ok example_part_on_cards(1) c1 l1]
  obtain bs1 bs where R: "part_reset_bot example_constants example_space example_table = Inr bs1"
    and Al: "alloc_blocks example_constants example_space example_blocks bs1 = Inr bs"
    and all: "\<forall>k. index_for example_constants example_table (r_bottom example_space) \<le> k
             \<and> address_for_index example_constants example_table k
                 < blocks_end (r_bottom example_space) example_blocks \<longrightarrow>
           (\<exists>s e. (s, e) \<in> set example_blocks
               \<and> s \<le> address_for_index example_constants example_table k
               \<and> address_for_index example_constants example_table k < e
               \<and> block_at_or_preceding_loop example_constants bs
                   (address_for_index example_constants example_table k) k (offset_array bs k)
                   = Inr s
               \<and> (offset_array bs k < N_words example_constants \<longrightarrow>
                    offset_array bs k = address_for_index example_constants example_table k - s))
         \<and> (N_words example_constants \<le> offset_array bs k \<longrightarrow>
               1 \<le> entry_to_cards_back example_constants (offset_array bs k)
             \<and> entry_to_cards_back example_constants (offset_array bs k)
                 \<le> k - index_for example_constants example_table (r_bottom example_space)
             \<and> offset_array bs (k - entry_to_cards_back example_constants (offset_array bs k))
                 \<le> offset_array bs k)"
    by blast
  from all [rule_format, of 3]
  have A3: "\<exists>s e. (s, e) \<in> set example_blocks \<and> s \<le> 1216 \<and> 1216 < e
               \<and> block_at_or_preceding_loop example_constants bs 1216 3 (offset_array bs 3) = Inr s
               \<and> (offset_array bs 3 < 64 \<longrightarrow> offset_array bs 3 = 1216 - s)"
    and B3: "64 \<le> offset_array bs 3 \<longrightarrow>
               1 \<le> entry_to_cards_back example_constants (offset_array bs 3)
             \<and> entry_to_cards_back example_constants (offset_array bs 3) \<le> 3 - 1"
    by (simp_all add: g e1)
  from A3 have w3: "block_at_or_preceding_loop example_constants bs 1216 3 (offset_array bs 3)
                      = Inr 1098"
    and o3: "offset_array bs 3 < 64 \<longrightarrow> offset_array bs 3 = 118"
    by (auto simp: example_blocks_def)
  from o3 have n3: "64 \<le> offset_array bs 3" by auto
  have first: "\<exists>bs1 bs. part_reset_bot example_constants example_space example_table = Inr bs1
       \<and> alloc_blocks example_constants example_space example_blocks bs1 = Inr bs
       \<and> N_words example_constants \<le> offset_array bs 3
       \<and> 1 \<le> entry_to_cards_back example_constants (offset_array bs 3)
       \<and> entry_to_cards_back example_constants (offset_array bs 3) \<le> 2
       \<and> block_at_or_preceding_loop example_constants bs 1216 3 (offset_array bs 3) = Inr 1098"
    using R Al n3 B3 w3 by (intro exI [of _ bs1] exI [of _ bs]) (simp add: g)
  have c2: "contiguous_blocks (r_bottom humongous_space) humongous_blocks"
    and l2: "blocks_end (r_bottom humongous_space) humongous_blocks \<le> 3008"
    and e2: "blocks_end (r_bottom humongous_space) humongous_blocks = 2560"
    by (simp_all add: humongous_space_def example_space_def humongous_blocks_def)
  from backward_skips_well_formed [OF ok example_part_on_cards(2) c2 l2]
  obtain hs1 hs where R2: "part_reset_bot example_constants humongous_space example_table = Inr hs1"
    and Al2: "alloc_blocks example_constants humongous_space humongous_blocks hs1 = Inr hs"
    and all2: "\<forall>k. index_for example_constants example_table (r_bottom humongous_space) \<le> k
             \<and> address_for_index example_constants example_table k
                 < blocks_end (r_bottom humongous_space) humongous_blocks \<longrightarrow>
           (\<exists>s e. (s, e) \<in> set humongous_blocks
               \<and> s \<le> address_for_index example_constants example_table k
               \<and> address_for_index example_constants example_table k < e
               \<and> block_at_or_preceding_loop example_constants hs
                   (address_for_index example_constants example_table k) k (offset_array hs k)
                   = Inr s
               \<and> (offset_array hs k < N_words example_constants \<longrightarrow>
                    offset_array hs k = address_for_index example_constants example_table k - s))
         \<and> (N_words example_constants \<le> offset_array hs k \<longrightarrow>
               1 \<le> entry_to_cards_back example_constants (offset_array hs k)
             \<and> entry_to_cards_back example_constants (offset_array hs k)
                 \<le> k - index_for example_constants example_table (r_bottom humongous_space)
             \<and> offset_array hs (k - entry_to_cards_back example_constants (offset_array hs k))
                 \<le> offset_array hs k)"
    by blast
  from all2 [rule_format, of 20]
  have A20: "\<exists>s e. (s, e) \<in> set humongous_blocks \<and> s \<le> 2304 \<and> 2304 < e
               \<and> block_at_or_preceding_loop example_constants hs 2304 20 (offset_array hs 20) = Inr s
               \<and> (offset_array hs 20 < 64 \<longrightarrow> offset_array hs 20 = 2304 - s)"
    and B20: "64 \<le> offset_array hs 20 \<longrightarrow>
               1 \<le> entry_to_cards_back example_constants (offset_array hs 20)
             \<and> entry_to_cards_back example_constants (offset_array hs 20) \<le> 20 - 1"
    by (simp_all add: g e2)
  from A20 have w20: "block_at_or_preceding_loop example_constants hs 2304 20 (offset_array hs 20)
                      = Inr 1088"
    and o20: "offset_array hs 20 < 64 \<longrightarrow> offset_array hs 20 = 1216"
    by (auto simp: humongous_blocks_def)
  from o20 have n20: "64 \<le> offset_array hs 20" by auto
  have sh: "set_for_starts_humongous example_constants humongous_space 2500 60 example_table
              = Inr hs"
    using R2 Al2
    by (simp add: set_for_starts_humongous_blocks humongous_blocks_def humongous_space_def
        example_space_def)
  have second: "\<exists>bs. set_for_starts_humongous example_constants humongous_space 2500 60 example_table
              = Inr bs
       \<and> N_words example_constants \<le> offset_array bs 20
       \<and> 1 \<le> entry_to_cards_back example_constants (offset_array bs 20)
       \<and> entry_to_cards_back example_constants (offset_array bs 20) \<le> 19
       \<and> block_at_or_preceding_loop example_constants bs 2304 20 (offset_array bs 20) = Inr 1088"
    using sh n20 B20 w20 by (intro exI [of _ hs]) (simp add: g)
  from first second show ?thesis by (rule conjI)
qed

lemma contiguous_blocks_bounds:
  "contiguous_blocks a bl \<Longrightarrow> (s, e) \<in> set bl \<Longrightarrow> a \<le> s \<and> s < e \<and> e \<le> blocks_end a bl"
proof (induction bl arbitrary: a)
  case Nil
  then show ?case by simp
next
  case (Cons x xs)
  obtain s1 e1 where x: "x = (s1, e1)" by (cases x)
  from Cons.prems(1) x have c: "s1 = a" "a < e1" "contiguous_blocks e1 xs" by simp_all
  have mono: "e1 \<le> blocks_end e1 xs"
    using c(3)
  proof (induction xs arbitrary: e1)
    case Nil
    show ?case by simp
  next
    case (Cons y ys)
    obtain s2 e2 where y: "y = (s2, e2)" by (cases y)
    with Cons.prems have "e1 < e2" "contiguous_blocks e2 ys" by simp_all
    with Cons.IH [of e2] show ?case by (simp add: y)
  qed
  show ?case
  proof (cases "(s, e) = (s1, e1)")
    case True
    then show ?thesis using c mono by (simp add: x)
  next
    case False
    with Cons.prems(2) x have "(s, e) \<in> set xs" by auto
    from Cons.IH [OF c(3) this] show ?thesis using c(2) by (simp add: x)
  qed
qed

lemma contiguous_blocks_unique:
  "contiguous_blocks a bl \<Longrightarrow> (s, e) \<in> set bl \<Longrightarrow> (s', e') \<in> set bl \<Longrightarrow>
   s \<le> x \<Longrightarrow> x < e \<Longrightarrow> s' \<le> x \<Longrightarrow> x < e' \<Longrightarrow> s = s'"
proof (induction bl arbitrary: a)
  case Nil
  then show ?case by simp
next
  case (Cons b xs)
  obtain s1 e1 where b: "b = (s1, e1)" by (cases b)
  from Cons.prems(1) b have c: "s1 = a" "a < e1" "contiguous_blocks e1 xs" by simp_all
  show ?case
  proof (cases "(s, e) = (s1, e1)")
    case True
    show ?thesis
    proof (cases "(s', e') = (s1, e1)")
      case True
      with \<open>(s, e) = (s1, e1)\<close> show ?thesis by simp
    next
      case False
      with Cons.prems(3) b have "(s', e') \<in> set xs" by auto
      from contiguous_blocks_bounds [OF c(3) this] have "e1 \<le> s'" by simp
      with True Cons.prems(5,6) show ?thesis by simp
    qed
  next
    case False
    with Cons.prems(2) b have in1: "(s, e) \<in> set xs" by auto
    show ?thesis
    proof (cases "(s', e') = (s1, e1)")
      case True
      from contiguous_blocks_bounds [OF c(3) in1] have "e1 \<le> s" by simp
      with True Cons.prems(4,7) show ?thesis by simp
    next
      case False
      with Cons.prems(3) b have "(s', e') \<in> set xs" by auto
      from Cons.IH [OF c(3) in1 this Cons.prems(4-7)] show ?thesis .
    qed
  qed
qed

lemma contiguous_blocks_suffix:
  "contiguous_blocks a bl \<Longrightarrow> (s, e) \<in> set bl \<Longrightarrow>
   \<exists>suf. set suf \<subseteq> set bl \<and> contiguous_blocks e suf \<and> blocks_end e suf = blocks_end a bl"
proof (induction bl arbitrary: a)
  case Nil
  then show ?case by simp
next
  case (Cons b xs)
  obtain s1 e1 where b: "b = (s1, e1)" by (cases b)
  from Cons.prems(1) b have c: "s1 = a" "a < e1" "contiguous_blocks e1 xs" by simp_all
  show ?case
  proof (cases "(s, e) = (s1, e1)")
    case True
    then show ?thesis using c(3) b by (intro exI [of _ xs]) auto
  next
    case False
    with Cons.prems(2) b have "(s, e) \<in> set xs" by auto
    from Cons.IH [OF c(3) this] obtain suf where "set suf \<subseteq> set xs" "contiguous_blocks e suf"
      "blocks_end e suf = blocks_end e1 xs" by blast
    then show ?thesis by (intro exI [of _ suf]) (auto simp: b)
  qed
qed

lemma forward_const_loop_blocks:
  "contiguous_blocks a bl \<Longrightarrow> blocks_in_heap hv sp bl \<Longrightarrow> a \<le> addr \<Longrightarrow>
   addr < blocks_end a bl \<Longrightarrow> q \<le> a \<Longrightarrow>
   \<exists>s e. (s, e) \<in> set bl \<and> s \<le> addr \<and> addr < e
         \<and> forward_const_loop hv sp q a addr = Some (Inr s)"
proof (induction bl arbitrary: a q)
  case Nil
  then show ?case by simp
next
  case (Cons b xs)
  obtain s1 e1 where b: "b = (s1, e1)" by (cases b)
  from Cons.prems(1) b have c: "s1 = a" "a < e1" "contiguous_blocks e1 xs" by simp_all
  from Cons.prems(2) b c(1) have h: "klass (hv_mem hv) a \<noteq> 0" "block_size hv sp a = Inr (e1 - a)"
    and hs: "blocks_in_heap hv sp xs"
    by (simp_all add: blocks_in_heap_def)
  have step: "forward_const_loop hv sp q a addr = forward_const_loop hv sp a e1 addr"
    using Cons.prems(3) h c(2) by (subst forward_const_loop.simps) simp
  show ?case
  proof (cases "e1 \<le> addr")
    case True
    from Cons.prems(4) b have "addr < blocks_end e1 xs" by simp
    from Cons.IH [OF c(3) hs True this, of a] c(2)
    obtain s e where "(s, e) \<in> set xs" "s \<le> addr" "addr < e"
      "forward_const_loop hv sp a e1 addr = Some (Inr s)" by auto
    then show ?thesis using step by (intro exI [of _ s] exI [of _ e]) simp
  next
    case False
    then have "forward_const_loop hv sp a e1 addr = Some (Inr a)"
      using c(2) by (subst forward_const_loop.simps) simp
    then show ?thesis using step False Cons.prems(3) b c(1)
      by (intro exI [of _ a] exI [of _ e1]) simp
  qed
qed

lemma region_end_card:
  assumes reg: "region_on_cards c sp bs" and "r_bottom sp \<le> addr" and "addr < r_end sp"
  shows "address_for_index c bs (index_for c bs addr) + N_words c \<le> r_end sp"
proof -
  define cb where "cb = index_for c bs (r_bottom sp)"
  define m where "m = (r_end sp - r_bottom sp) div N_words c"
  from reg have al: "(r_end sp - r_bottom sp) mod N_words c = 0" and le: "r_bottom sp \<le> r_end sp"
    and rs: "reserved_start bs \<le> r_bottom sp"
    by (simp_all add: region_on_cards_def)
  have "m * N_words c = r_end sp - r_bottom sp"
    using al by (simp add: m_def mod_eq_0_iff_dvd)
  then have "r_end sp = r_bottom sp + m * N_words c" using le by simp
  also have "r_bottom sp = address_for_index c bs cb"
    using region_bottom_address [OF reg] by (simp add: cb_def)
  finally have e: "r_end sp = address_for_index c bs (cb + m)"
    by (simp add: address_for_index_def algebra_simps)
  have "reserved_start bs \<le> addr" using rs assms(2) by simp
  moreover have "addr < address_for_index c bs (cb + m)" using assms(3) e by simp
  ultimately have "index_for c bs addr < cb + m" by (rule index_for_less_address)
  then have "Suc (index_for c bs addr) \<le> cb + m" by simp
  then have "address_for_index c bs (Suc (index_for c bs addr)) \<le> address_for_index c bs (cb + m)"
    by (rule address_for_index_mono)
  then show ?thesis using e by (simp add: address_for_index_Suc)
qed

lemma not_card_boundary_inside:
  assumes "address_for_index c bs k < p" and "p < address_for_index c bs k + N_words c"
  shows "\<not> is_card_boundary c bs p" and "index_for c bs p = k"
proof -
  define r where "r = p - address_for_index c bs k"
  have r: "0 < r" "r < N_words c" using assms by (simp_all add: r_def)
  have p: "p - reserved_start bs = k * N_words c + r"
    using assms(1) by (simp add: r_def address_for_index_def)
  have "(p - reserved_start bs) mod N_words c = r"
    unfolding p using r(2) by simp
  then show "\<not> is_card_boundary c bs p"
    using r(1) by (simp add: is_card_boundary_def pointer_delta_def)
  have "(p - reserved_start bs) div N_words c = k"
    unfolding p using r(2) by simp
  then show "index_for c bs p = k"
    by (simp add: index_for_def pointer_delta_def)
qed

lemma blocks_in_heap_subset:
  "blocks_in_heap hv sp bl \<Longrightarrow> set suf \<subseteq> set bl \<Longrightarrow> blocks_in_heap hv sp suf"
  by (auto simp: blocks_in_heap_def list_all_iff)

lemma blocks_in_heap_mem:
  "blocks_in_heap hv sp bl \<Longrightarrow> (s, e) \<in> set bl \<Longrightarrow>
   klass (hv_mem hv) s \<noteq> 0 \<and> block_size hv sp s = Inr (e - s)"
  by (auto simp: blocks_in_heap_def list_all_iff)

lemma block_start_blocks:
  assumes ok: "bot_constants_ok c" and reg: "region_on_cards c sp bs"
    and inv: "bot_inv c sp bs blks (r_top sp)"
    and cont: "contiguous_blocks (r_bottom sp) blks"
    and top_eq: "r_top sp = blocks_end (r_bottom sp) blks"
    and top_le: "r_top sp \<le> r_end sp"
    and heap: "blocks_in_heap hv sp blks"
    and mem: "(s, e) \<in> set blks" and range: "s \<le> addr" "addr < e"
  shows "block_start c hv sp bs addr = Some (Inr (Some s, bs))"
proof -
  define cb where "cb = index_for c bs (r_bottom sp)"
  define k where "k = index_for c bs addr"
  from contiguous_blocks_bounds [OF cont mem] top_eq
  have b: "r_bottom sp \<le> s" "s < e" "e \<le> r_top sp" by simp_all
  have a: "r_bottom sp \<le> addr" "addr < r_top sp" "addr < r_end sp"
    using b range top_le by simp_all
  from reg have rs: "reserved_start bs \<le> r_bottom sp" and re: "r_end sp \<le> reserved_end bs"
    by (simp_all add: region_on_cards_def)
  have Acb: "address_for_index c bs cb = r_bottom sp"
    using region_bottom_address [OF reg] by (simp add: cb_def)
  from inv a have nxt: "next_offset_index bs = index_for c bs (r_top sp - 1) + 1"
    and zero: "offset_array bs cb = 0"
    by (auto simp: bot_inv_def cb_def)
  have k_le: "k \<le> index_for c bs (r_top sp - 1)"
    unfolding k_def using a(2) by (intro index_for_mono) simp
  have cb_le: "cb \<le> k"
    unfolding k_def cb_def using a(1) by (rule index_for_mono)
  have Ak: "address_for_index c bs k \<le> addr" "addr < address_for_index c bs k + N_words c"
    unfolding k_def using rs a(1) address_for_index_gt [of addr c bs]
    by (simp_all add: address_for_index_le)
  have bap: "block_at_or_preceding c sp bs addr True (next_offset_index bs - 1) =
             block_at_or_preceding_loop c bs (address_for_index c bs k) k (offset_array bs k)"
    using zero k_le
    by (simp add: block_at_or_preceding_def check_def Let_def nxt cb_def [symmetric]
        k_def [symmetric] min_absorb1)
  have "\<exists>sq eq. (sq, eq) \<in> set blks \<and> sq \<le> address_for_index c bs k
          \<and> address_for_index c bs k < eq
          \<and> block_at_or_preceding_loop c bs (address_for_index c bs k) k (offset_array bs k)
            = Inr sq"
  proof (cases "k = cb")
    case True
    from mem obtain x xs where bl: "blks = x # xs" by (cases blks) auto
    obtain s1 e1 where x: "x = (s1, e1)" by (cases x)
    from cont bl x have f: "s1 = r_bottom sp" "s1 < e1" by simp_all
    have "block_at_or_preceding_loop c bs (address_for_index c bs cb) cb (offset_array bs cb)
          = Inr (address_for_index c bs cb - offset_array bs cb)"
      using zero by (intro block_at_or_preceding_loop_direct) simp
    then show ?thesis
      using True f Acb zero bl x by (intro exI [of _ s1] exI [of _ e1]) simp
  next
    case False
    with cb_le have "index_for c bs (r_bottom sp) < k" by (simp add: cb_def)
    moreover have "k < next_offset_index bs" using k_le by (simp add: nxt)
    ultimately show ?thesis by (rule bot_inv_card(1) [OF ok reg inv])
  qed
  then obtain sq eq where q: "(sq, eq) \<in> set blks" "sq \<le> address_for_index c bs k"
    "address_for_index c bs k < eq"
    "block_at_or_preceding_loop c bs (address_for_index c bs k) k (offset_array bs k) = Inr sq"
    by blast
  from contiguous_blocks_bounds [OF cont q(1)] top_eq
  have qb: "r_bottom sp \<le> sq" "sq < eq" "eq \<le> r_top sp" by simp_all
  from blocks_in_heap_mem [OF heap q(1)]
  have hq: "klass (hv_mem hv) sq \<noteq> 0" "block_size hv sp sq = Inr (eq - sq)" by simp_all
  have sq_le: "sq \<le> addr" using q(2) Ak(1) by simp
  have n_eq: "sq + (eq - sq) = eq" using qb(2) by simp
  have fwd: "forward_to_block_containing_addr c hv sp bs sq addr = Some (Inr (s, bs))"
  proof (cases "eq \<le> addr")
    case False
    then have "sq = s"
      using contiguous_blocks_unique [OF cont q(1) mem sq_le _ range] by simp
    then show ?thesis
      using hq False range(1)
      by (simp add: forward_to_block_containing_addr_def Let_def n_eq)
  next
    case True
    have inside: "address_for_index c bs k < eq" "eq < address_for_index c bs k + N_words c"
      using q(3) True Ak(2) by simp_all
    note nb = not_card_boundary_inside [OF inside]
    have res: "address_for_index c bs k + N_words c \<le> reserved_end bs"
      using region_end_card [OF reg a(1,3)] re by (simp add: k_def)
    have outer: "slow_outer_loop c hv sp addr (address_for_index c bs k + N_words c) (k + 1) sq eq bs
                 = Some (Inr (Inr (sq, eq), bs))"
      using Ak(2) by (subst slow_outer_loop.simps) simp
    from contiguous_blocks_suffix [OF cont q(1)] top_eq
    obtain suf where suf: "set suf \<subseteq> set blks" "contiguous_blocks eq suf"
      "blocks_end eq suf = r_top sp" by auto
    have hs: "blocks_in_heap hv sp suf" using heap suf(1) by (rule blocks_in_heap_subset)
    from forward_const_loop_blocks [OF suf(2) hs True _ qb(2) [THEN less_imp_le]] a(2) suf(3)
    obtain s' e' where w: "(s', e') \<in> set suf" "s' \<le> addr" "addr < e'"
      "forward_const_loop hv sp sq eq addr = Some (Inr s')" by auto
    from w(1) suf(1) have "(s', e') \<in> set blks" by auto
    from contiguous_blocks_unique [OF cont this mem w(2,3) range] have "s' = s" .
    with w(4) have const: "forward_to_block_containing_addr_const hv sp sq eq addr = Some (Inr s)"
      using a(2) by (simp add: forward_to_block_containing_addr_const_def)
    have slow: "forward_to_block_containing_addr_slow c hv sp bs sq eq addr = Some (Inr (s, bs))"
      using nb res a(2) outer const
      by (simp add: forward_to_block_containing_addr_slow_def Let_def)
    show ?thesis
      using hq True range(1) slow
      by (simp add: forward_to_block_containing_addr_def Let_def n_eq)
  qed
  show ?thesis
    using a(1,3) bap q(4) fwd by (simp add: block_start_def)
qed

text \<open>
  Claim C1, as the code has it. The ranges have to be the ones bump-pointer allocation
  produces: the first starts at the bottom of the region and each one starts where the
  one before ends, and the heap holds an object at each of them. After a reset of the
  part and the \<^verbatim>\<open>alloc_block\<close> calls for these ranges (which all succeed), with \<open>top\<close>
  at the end of the last range, \<^verbatim>\<open>block_start(addr)\<close> returns the start of the range
  that contains \<open>addr\<close>, and leaves the table as it is.
\<close>

theorem block_start_round_trip:
  assumes "bot_constants_ok c" and "region_on_cards c sp bs0"
    and "contiguous_blocks (r_bottom sp) blks"
    and "r_top sp = blocks_end (r_bottom sp) blks" and "r_top sp \<le> r_end sp"
    and "blocks_in_heap hv sp blks"
    and "(s, e) \<in> set blks" and "s \<le> addr" and "addr < e"
  shows "\<exists>bs1 bs. part_reset_bot c sp bs0 = Inr bs1 \<and> alloc_blocks c sp blks bs1 = Inr bs
           \<and> block_start c hv sp bs addr = Some (Inr (Some s, bs))"
proof -
  from part_reset_bot_inv [OF assms(2)]
  obtain bs1 where r: "part_reset_bot c sp bs0 = Inr bs1" and inv1: "bot_inv c sp bs1 [] (r_bottom sp)"
    and r1: "reserved_start bs1 = reserved_start bs0" "reserved_end bs1 = reserved_end bs0"
    by blast
  have reg1: "region_on_cards c sp bs1" using assms(2) r1 by (rule region_on_cards_cong)
  have le: "blocks_end (r_bottom sp) blks \<le> r_end sp" using assms(4,5) by simp
  from alloc_blocks_inv [OF assms(1) reg1 inv1 assms(3) le]
  obtain bs where a: "alloc_blocks c sp blks bs1 = Inr bs"
    and inv: "bot_inv c sp bs blks (r_top sp)"
    and r2: "reserved_start bs = reserved_start bs1" "reserved_end bs = reserved_end bs1"
    using assms(4) by auto
  have reg: "region_on_cards c sp bs" using reg1 r2 by (rule region_on_cards_cong)
  have "block_start c hv sp bs addr = Some (Inr (Some s, bs))"
    using assms(1) reg inv assms(3-9) by (rule block_start_blocks)
  with r a show ?thesis by blast
qed

lemma example_constants_ok: "bot_constants_ok example_constants"
  by (simp add: bot_constants_ok_def example_constants_def N_words_def)

lemma example_region_on_cards: "region_on_cards example_constants example_space example_table"
  by (simp add: region_on_cards_def example_constants_def example_space_def
      example_table_def example_region_def N_words_def power_to_cards_back_def)

lemma example_blocks_in_heap: "blocks_in_heap example_view example_space example_blocks"
  by (simp add: blocks_in_heap_def example_view_def example_space_def example_blocks_def
      example_region_def klass_def block_size_def block_is_obj_def is_in_def oop_size_def)

theorem block_start_round_trip_witness:
  "\<exists>bs1 bs. part_reset_bot example_constants example_space example_table = Inr bs1
     \<and> alloc_blocks example_constants example_space example_blocks bs1 = Inr bs
     \<and> block_start example_constants example_view example_space bs 1200 = Some (Inr (Some 1098, bs))"
proof -
  have 3: "contiguous_blocks (r_bottom example_space) example_blocks"
    by (simp add: example_space_def example_blocks_def)
  have 4: "r_top example_space = blocks_end (r_bottom example_space) example_blocks"
    by (simp add: example_space_def example_blocks_def)
  have 5: "r_top example_space \<le> r_end example_space"
    by (simp add: example_space_def)
  have 7: "(1098, 1280) \<in> set example_blocks"
    by (simp add: example_blocks_def)
  show ?thesis
    using block_start_round_trip [OF example_constants_ok example_region_on_cards 3 4 5
        example_blocks_in_heap 7, of 1200]
    by simp
qed

text \<open>
  The claim as stated fails: ranges that are increasing and do not overlap may leave a
  gap. With objects at \<open>[1088, 1098)\<close> and \<open>[1108, 1140)\<close> recorded, the lookup of
  address \<open>1120\<close> of the second range answers \<open>1098\<close>, the end of the first range, and
  not the start \<open>1108\<close>.
\<close>

lemma gap_table:
  "part_reset_bot example_constants gap_space example_table =
     Inr (example_table\<lparr>offset_array := (\<lambda>k. 77)(1 := 0), next_offset_index := 2,
                          next_offset_threshold := 1152\<rparr>)"
  "alloc_blocks example_constants gap_space gap_blocks
     (example_table\<lparr>offset_array := (\<lambda>k. 77)(1 := 0), next_offset_index := 2,
                     next_offset_threshold := 1152\<rparr>) =
     Inr (example_table\<lparr>offset_array := (\<lambda>k. 77)(1 := 0), next_offset_index := 2,
                          next_offset_threshold := 1152\<rparr>)"
  by (simp_all add: part_reset_bot_def zero_bottom_entry_raw_def initialize_threshold_raw_def
      Let_def check_def index_for_def address_for_index_def pointer_delta_def N_words_def
      example_constants_def gap_space_def example_space_def example_region_def
      example_table_def set_offset_array_def gap_blocks_def alloc_block_def)

lemma gap_lookup:
  "block_start example_constants gap_view gap_space
     (example_table\<lparr>offset_array := (\<lambda>k. 77)(1 := 0), next_offset_index := 2,
                     next_offset_threshold := 1152\<rparr>) 1120 =
   Some (Inr (Some 1098,
     example_table\<lparr>offset_array := (\<lambda>k. 77)(1 := 0), next_offset_index := 2,
                    next_offset_threshold := 1152\<rparr>))"
  by (simp add: block_start_def block_at_or_preceding_def
      block_at_or_preceding_loop.simps forward_to_block_containing_addr_def
      forward_to_block_containing_addr_slow_def forward_to_block_containing_addr_const_def
      slow_outer_loop.simps forward_const_loop.simps
      block_size_def block_is_obj_def is_in_def oop_size_def klass_def is_card_boundary_def
      Let_def check_def index_for_def address_for_index_def pointer_delta_def N_words_def
      example_constants_def gap_space_def example_space_def example_region_def
      example_table_def gap_view_def example_view_def)

theorem block_start_gap_counterexample:
  "increasing_blocks (r_bottom gap_space) (r_end gap_space) gap_blocks
   \<and> r_top gap_space = blocks_end (r_bottom gap_space) gap_blocks
   \<and> blocks_in_heap gap_view gap_space gap_blocks
   \<and> (1108, 1140) \<in> set gap_blocks
   \<and> part_reset_bot example_constants gap_space example_table = Inr gap_bot
   \<and> alloc_blocks example_constants gap_space gap_blocks gap_bot = Inr gap_bot
   \<and> block_start example_constants gap_view gap_space gap_bot 1120
         = Some (Inr (Some 1098, gap_bot))"
proof -
  have 1: "increasing_blocks (r_bottom gap_space) (r_end gap_space) gap_blocks"
    by (simp add: gap_space_def example_space_def gap_blocks_def)
  have 2: "r_top gap_space = blocks_end (r_bottom gap_space) gap_blocks"
    by (simp add: gap_space_def example_space_def gap_blocks_def)
  have 3: "blocks_in_heap gap_view gap_space gap_blocks"
    by (simp add: blocks_in_heap_def gap_view_def example_view_def gap_space_def
        example_space_def gap_blocks_def example_region_def klass_def block_size_def
        block_is_obj_def is_in_def oop_size_def)
  have 4: "(1108, 1140) \<in> set gap_blocks"
    by (simp add: gap_blocks_def)
  have 5: "part_reset_bot example_constants gap_space example_table = Inr gap_bot"
    unfolding gap_bot_def by (rule gap_table(1))
  have 6: "alloc_blocks example_constants gap_space gap_blocks gap_bot = Inr gap_bot"
    unfolding gap_bot_def by (rule gap_table(2))
  have 7: "block_start example_constants gap_view gap_space gap_bot 1120
             = Some (Inr (Some 1098, gap_bot))"
    unfolding gap_bot_def by (rule gap_lookup)
  show ?thesis
    using 1 2 3 4 5 6 7 by (intro conjI)
qed

section \<open>Properties of the SuspendibleThreadSet\<close>

lemma count_at_update:
  "i < length ts \<Longrightarrow> ts ! i = a \<Longrightarrow> a \<noteq> b \<Longrightarrow>
     count_at b (ts[i := b]) = count_at b ts + 1
     \<and> count_at a ts = count_at a (ts[i := b]) + 1
     \<and> (\<forall>c. c \<noteq> a \<and> c \<noteq> b \<longrightarrow> count_at c (ts[i := b]) = count_at c ts)"
proof (induction ts arbitrary: i)
  case Nil
  then show ?case by simp
next
  case (Cons x ts)
  show ?case
  proof (cases i)
    case 0
    with Cons.prems show ?thesis by (auto simp: count_at_def)
  next
    case (Suc j)
    with Cons.prems have "j < length ts" "ts ! j = a" by auto
    from Cons.IH [OF this Cons.prems(3)] Suc show ?thesis by (auto simp: count_at_def)
  qed
qed

lemma count_at_total:
  "count_at Outside ts + count_at Joined ts + count_at Stopped ts = length ts"
proof (induction ts)
  case Nil
  show ?case by (simp add: count_at_def)
next
  case (Cons x ts)
  then show ?case by (cases x) (auto simp: count_at_def)
qed

lemma count_at_replicate: "count_at a (replicate n b) = (if a = b then n else 0)"
  by (induction n) (auto simp: count_at_def)

lemma sts_init_inv: "sts_inv n (SuspendibleThreadSet_init n)"
  by (simp add: sts_inv_def SuspendibleThreadSet_init_def count_at_replicate)

lemma uint_incr_small: "x + 1 < 2 ^ 32 \<Longrightarrow> uint_incr x = x + 1"
  by (simp add: uint_incr_def)

lemma join_inv:
  assumes "n < 2 ^ 32" and "sts_inv n st" and "t < length (threads st)"
    and "SuspendibleThreadSet_join t st = Some (Inr st1)"
  shows "sts_inv n st1"
proof -
  from assms(4) have at: "threads st ! t = Outside" and ns: "\<not> suspend_all st"
    and st1: "st1 = st\<lparr>nthreads := uint_incr (nthreads st), threads := (threads st)[t := Joined]\<rparr>"
    by (auto simp: SuspendibleThreadSet_join_def split: thread_at.splits if_splits)
  from count_at_update [OF assms(3) at, of Joined]
  have c: "count_at Joined ((threads st)[t := Joined]) = count_at Joined (threads st) + 1"
    "count_at Outside (threads st) = count_at Outside ((threads st)[t := Joined]) + 1"
    "count_at Stopped ((threads st)[t := Joined]) = count_at Stopped (threads st)"
    by auto
  have "nthreads st + 1 \<le> n"
    using count_at_total [of "threads st"] c assms(2) by (simp add: sts_inv_def)
  hence u: "uint_incr (nthreads st) = nthreads st + 1"
    using assms(1) by (intro uint_incr_small) simp
  have rq: "requester st = No_request"
    using assms(2) ns by (cases "requester st") (auto simp: sts_inv_def)
  show ?thesis
    using assms(2) rq ns c u by (simp add: sts_inv_def st1)
qed


lemma count_at_pos: "i < length ts \<Longrightarrow> ts ! i = a \<Longrightarrow> 0 < count_at a ts"
  unfolding count_at_def by (metis (mono_tags, lifting) filter_empty_conv length_greater_0_conv nth_mem)

lemma leave_inv:
  assumes "sts_inv n st" and "t < length (threads st)"
    and "SuspendibleThreadSet_leave t st = Some (Inr st1)"
  shows "sts_inv n st1"
proof -
  from assms(3) have at: "threads st ! t = Joined"
    by (auto simp: SuspendibleThreadSet_leave_def split: thread_at.splits)
  from count_at_update [OF assms(2) at, of Outside]
  have c: "count_at Joined (threads st) = count_at Joined ((threads st)[t := Outside]) + 1"
    "count_at Stopped ((threads st)[t := Outside]) = count_at Stopped (threads st)"
    by auto
  have nr: "requester st \<noteq> Returned"
    using assms(1) c by (auto simp: sts_inv_def)
  show ?thesis
  proof (cases "requester st")
    case No_request
    then show ?thesis
      using assms(1,3) at c
      by (auto simp: sts_inv_def SuspendibleThreadSet_leave_def check_def Let_def
          split: if_splits)
  next
    case On_semaphore
    then show ?thesis
      using assms(1,3) at c
      by (auto simp: sts_inv_def SuspendibleThreadSet_leave_def check_def Let_def
          is_synchronized_def signal_def split: if_splits)
  next
    case Returned
    with nr show ?thesis by simp
  qed
qed

lemma yield_inv:
  assumes "n < 2 ^ 32" and "sts_inv n st" and "t < length (threads st)"
    and "SuspendibleThreadSet_yield T t elapsed st = Some (Inr st1)"
  shows "sts_inv n st1"
proof -
  from assms(4) have at: "threads st ! t = Joined"
    by (auto simp: SuspendibleThreadSet_yield_def split: thread_at.splits)
  from count_at_update [OF assms(3) at, of Stopped]
  have c: "count_at Joined (threads st) = count_at Joined ((threads st)[t := Stopped]) + 1"
    "count_at Stopped ((threads st)[t := Stopped]) = count_at Stopped (threads st) + 1"
    by auto
  have "nthreads_stopped st + 1 \<le> n"
    using count_at_total [of "threads st"] c assms(2) by (simp add: sts_inv_def)
  hence u: "uint_incr (nthreads_stopped st) = nthreads_stopped st + 1"
    using assms(1) by (intro uint_incr_small) simp
  have nr: "requester st \<noteq> Returned"
    using assms(2) c by (auto simp: sts_inv_def)
  show ?thesis
  proof (cases "requester st")
    case No_request
    then show ?thesis
      using assms(2,4) at
      by (auto simp: sts_inv_def SuspendibleThreadSet_yield_def split: if_splits)
  next
    case On_semaphore
    then show ?thesis
      using assms(2,4) at c u
      by (auto simp: sts_inv_def SuspendibleThreadSet_yield_def check_def guarantee_def Let_def
          is_synchronized_def signal_def split: if_splits)
  next
    case Returned
    with nr show ?thesis by simp
  qed
qed

lemma yield_wakeup_inv:
  assumes "sts_inv n st" and "t < length (threads st)"
    and "SuspendibleThreadSet_yield_wakeup t st = Some (Inr st1)"
  shows "sts_inv n st1"
proof -
  from assms(3) have at: "threads st ! t = Stopped" and ns: "\<not> suspend_all st"
    by (auto simp: SuspendibleThreadSet_yield_wakeup_def split: thread_at.splits if_splits)
  from count_at_update [OF assms(2) at, of Joined]
  have c: "count_at Stopped (threads st) = count_at Stopped ((threads st)[t := Joined]) + 1"
    "count_at Joined ((threads st)[t := Joined]) = count_at Joined (threads st) + 1"
    by auto
  have rq: "requester st = No_request"
    using assms(1) ns by (cases "requester st") (auto simp: sts_inv_def)
  show ?thesis
    using assms(1,3) at ns c rq
    by (auto simp: sts_inv_def SuspendibleThreadSet_yield_wakeup_def check_def split: if_splits)
qed

lemma synchronize_inv:
  assumes "sts_inv n st" and "SuspendibleThreadSet_synchronize st = Some (Inr st1)"
  shows "sts_inv n st1"
proof -
  from assms(2) have ns: "\<not> suspend_all st"
    by (auto simp: SuspendibleThreadSet_synchronize_def check_def split: if_splits)
  have rq: "requester st = No_request"
    using assms(1) ns by (cases "requester st") (auto simp: sts_inv_def)
  show ?thesis
    using assms rq ns
    by (auto simp: sts_inv_def SuspendibleThreadSet_synchronize_def check_def Let_def
        is_synchronized_def split: if_splits)
qed

lemma synchronize_wakeup_inv:
  assumes "sts_inv n st" and "SuspendibleThreadSet_synchronize_wakeup st = Some (Inr st1)"
  shows "sts_inv n st1"
  using assms
  by (auto simp: sts_inv_def SuspendibleThreadSet_synchronize_wakeup_def check_def Let_def
      is_synchronized_def split: if_splits)

lemma desynchronize_inv:
  assumes "sts_inv n st" and "SuspendibleThreadSet_desynchronize st = Some (Inr st1)"
  shows "sts_inv n st1"
proof -
  from assms(2) have ns: "suspend_all st" and nw: "requester st \<noteq> On_semaphore"
    by (auto simp: SuspendibleThreadSet_desynchronize_def check_def split: if_splits)
  have rq: "requester st = Returned"
    using assms(1) ns nw by (cases "requester st") (auto simp: sts_inv_def)
  show ?thesis
    using assms rq
    by (auto simp: sts_inv_def SuspendibleThreadSet_desynchronize_def check_def
        is_synchronized_def split: if_splits)
qed

lemma sts_step_inv:
  assumes "n < 2 ^ 32" and "sts_inv n st" and "sts_step T ev st = Some (Inr st1)"
  shows "sts_inv n st1"
proof (cases ev)
  case (Join t)
  with assms show ?thesis by (auto split: if_splits intro: join_inv)
next
  case (Leave t)
  with assms show ?thesis by (auto split: if_splits intro: leave_inv)
next
  case (Yield t elapsed)
  with assms show ?thesis by (auto split: if_splits intro: yield_inv)
next
  case (Yield_wakeup t)
  with assms show ?thesis by (auto split: if_splits intro: yield_wakeup_inv)
next
  case Synchronize
  with assms show ?thesis by (auto intro: synchronize_inv)
next
  case Synchronize_wakeup
  with assms show ?thesis by (auto intro: synchronize_wakeup_inv)
next
  case Desynchronize
  with assms show ?thesis by (auto intro: desynchronize_inv)
qed

lemma sts_run_inv:
  "n < 2 ^ 32 \<Longrightarrow> sts_inv n st \<Longrightarrow> sts_run T evs st = Some (Inr st1) \<Longrightarrow> sts_inv n st1"
proof (induction evs arbitrary: st)
  case Nil
  then show ?case by simp
next
  case (Cons ev evs)
  from Cons.prems(3) obtain st2 where s: "sts_step T ev st = Some (Inr st2)"
    and r: "sts_run T evs st2 = Some (Inr st1)"
    by (auto split: option.splits sum.splits)
  from sts_step_inv [OF Cons.prems(1,2) s] have "sts_inv n st2" .
  from Cons.IH [OF Cons.prems(1) this r] show ?case .
qed


lemma signal_by_last:
  assumes "sts_inv n st" and "sts_step T ev st = Some (Inr st1)"
    and "signalled_by st1 \<noteq> signalled_by st" and "ev \<noteq> Synchronize"
  shows "\<exists>t. (ev = Leave t \<or> (\<exists>elapsed. ev = Yield t elapsed)) \<and> threads st ! t = Joined
           \<and> signalled_by st1 = [t] \<and> requester st = On_semaphore
           \<and> nthreads_stopped st < nthreads st \<and> nthreads_stopped st1 = nthreads st1"
proof (cases ev)
  case (Join t)
  with assms(2,3) show ?thesis
    by (auto simp: SuspendibleThreadSet_join_def split: if_splits thread_at.splits)
next
  case (Leave t)
  with assms(2) have t: "t < length (threads st)" and at: "threads st ! t = Joined"
    by (auto simp: SuspendibleThreadSet_leave_def split: if_splits thread_at.splits)
  from count_at_pos [OF t at] have "0 < count_at Joined (threads st)" .
  hence lt: "nthreads_stopped st < nthreads st" using assms(1) by (simp add: sts_inv_def)
  have "requester st = On_semaphore \<and> signalled_by st1 = [t] \<and> nthreads_stopped st1 = nthreads st1"
    using assms(1,2,3) Leave at lt
    by (cases "requester st")
      (auto simp: sts_inv_def SuspendibleThreadSet_leave_def check_def Let_def
        is_synchronized_def signal_def split: if_splits)
  with Leave at lt show ?thesis by blast
next
  case (Yield t elapsed)
  with assms(2) have t: "t < length (threads st)" and at: "threads st ! t = Joined"
    by (auto simp: SuspendibleThreadSet_yield_def split: if_splits thread_at.splits)
  from count_at_pos [OF t at] have "0 < count_at Joined (threads st)" .
  hence lt: "nthreads_stopped st < nthreads st" using assms(1) by (simp add: sts_inv_def)
  have "requester st = On_semaphore \<and> signalled_by st1 = [t] \<and> nthreads_stopped st1 = nthreads st1"
    using assms(1,2,3) Yield at lt
    by (cases "requester st")
      (auto simp: sts_inv_def SuspendibleThreadSet_yield_def check_def guarantee_def Let_def
        is_synchronized_def signal_def split: if_splits)
  with Yield at lt show ?thesis by blast
next
  case (Yield_wakeup t)
  with assms(2,3) show ?thesis
    by (auto simp: SuspendibleThreadSet_yield_wakeup_def check_def split: if_splits thread_at.splits)
next
  case Synchronize
  with assms(4) show ?thesis by simp
next
  case Synchronize_wakeup
  with assms(2,3) show ?thesis
    by (auto simp: SuspendibleThreadSet_synchronize_wakeup_def check_def Let_def
        is_synchronized_def split: if_splits)
next
  case Desynchronize
  with assms(2,3) show ?thesis
    by (auto simp: SuspendibleThreadSet_desynchronize_def check_def
        is_synchronized_def split: if_splits)
qed

lemma synchronize_wakeup_enabled:
  assumes "sts_inv n st" and "requester st = On_semaphore"
  shows "if nthreads_stopped st = nthreads st
         then \<exists>st1. sts_step T Synchronize_wakeup st = Some (Inr st1) \<and> requester st1 = Returned
         else sts_step T Synchronize_wakeup st = None"
  using assms
  by (auto simp: sts_inv_def SuspendibleThreadSet_synchronize_wakeup_def check_def Let_def
      is_synchronized_def split: if_splits)

text \<open>
  Claim C9, as the code has it. In every state that a run of the set reaches (with fewer
  than \<open>2 ^ 32\<close> threads, and no assertion failed):

  \<^item> the two counters count the joined and the stopped threads;
  \<^item> while the requester sleeps on the semaphore inside \<^verbatim>\<open>synchronize\<close>, the semaphore has
    been signalled once and holds one signal if every joined thread is stopped, and then
    the wait returns and the assertions after it hold; otherwise it has not been
    signalled, its count is zero and the wait cannot return;
  \<^item> once \<^verbatim>\<open>synchronize\<close> has returned, every joined thread is stopped, the semaphore is
    back at zero, and it was signalled once if the request had to wait and not at all if
    the request found every joined thread stopped already;
  \<^item> a step that signals is a \<^verbatim>\<open>leave\<close> or a \<^verbatim>\<open>yield\<close> of a joined thread during a
    waiting request, before it some joined thread was not stopped, and after it all are.
\<close>

theorem synchronize_signalled_once:
  assumes "n < 2 ^ 32" and "sts_run T evs (SuspendibleThreadSet_init n) = Some (Inr st)"
  shows "nthreads st = count_at Joined (threads st) + count_at Stopped (threads st)
     \<and> nthreads_stopped st = count_at Stopped (threads st)
     \<and> (requester st = On_semaphore \<longrightarrow>
          (if nthreads_stopped st = nthreads st
           then length (signalled_by st) = 1 \<and> synchronize_wakeup st = 1
                \<and> (\<exists>st1. sts_step T Synchronize_wakeup st = Some (Inr st1)
                       \<and> requester st1 = Returned)
           else signalled_by st = [] \<and> synchronize_wakeup st = 0
                \<and> sts_step T Synchronize_wakeup st = None))
     \<and> (requester st = Returned \<longrightarrow>
          nthreads_stopped st = nthreads st \<and> synchronize_wakeup st = 0
          \<and> length (signalled_by st) = (if waited st then 1 else 0))
     \<and> (\<forall>ev st1. sts_step T ev st = Some (Inr st1) \<and> signalled_by st1 \<noteq> signalled_by st
            \<and> ev \<noteq> Synchronize \<longrightarrow>
          (\<exists>t. (ev = Leave t \<or> (\<exists>elapsed. ev = Yield t elapsed))
              \<and> threads st ! t = Joined \<and> signalled_by st1 = [t]
              \<and> requester st = On_semaphore
              \<and> nthreads_stopped st < nthreads st \<and> nthreads_stopped st1 = nthreads st1))"
proof -
  have inv: "sts_inv n st"
    using assms(1) sts_init_inv assms(2) by (rule sts_run_inv)
  have 1: "nthreads st = count_at Joined (threads st) + count_at Stopped (threads st)"
    and 2: "nthreads_stopped st = count_at Stopped (threads st)"
    using inv by (simp_all add: sts_inv_def)
  have 3: "requester st = On_semaphore \<longrightarrow>
          (if nthreads_stopped st = nthreads st
           then length (signalled_by st) = 1 \<and> synchronize_wakeup st = 1
                \<and> (\<exists>st1. sts_step T Synchronize_wakeup st = Some (Inr st1)
                       \<and> requester st1 = Returned)
           else signalled_by st = [] \<and> synchronize_wakeup st = 0
                \<and> sts_step T Synchronize_wakeup st = None)"
  proof
    assume rq: "requester st = On_semaphore"
    from synchronize_wakeup_enabled [OF inv rq, of T] inv rq
    show "if nthreads_stopped st = nthreads st
           then length (signalled_by st) = 1 \<and> synchronize_wakeup st = 1
                \<and> (\<exists>st1. sts_step T Synchronize_wakeup st = Some (Inr st1)
                       \<and> requester st1 = Returned)
           else signalled_by st = [] \<and> synchronize_wakeup st = 0
                \<and> sts_step T Synchronize_wakeup st = None"
      by (simp add: sts_inv_def split: if_splits)
  qed
  have 4: "requester st = Returned \<longrightarrow>
          nthreads_stopped st = nthreads st \<and> synchronize_wakeup st = 0
          \<and> length (signalled_by st) = (if waited st then 1 else 0)"
    using inv by (auto simp: sts_inv_def)
  have 5: "\<forall>ev st1. sts_step T ev st = Some (Inr st1) \<and> signalled_by st1 \<noteq> signalled_by st
            \<and> ev \<noteq> Synchronize \<longrightarrow>
          (\<exists>t. (ev = Leave t \<or> (\<exists>elapsed. ev = Yield t elapsed))
              \<and> threads st ! t = Joined \<and> signalled_by st1 = [t]
              \<and> requester st = On_semaphore
              \<and> nthreads_stopped st < nthreads st \<and> nthreads_stopped st1 = nthreads st1)"
    using signal_by_last [OF inv] by blast
  from 1 2 3 4 5 show ?thesis by (intro conjI)
qed


lemma SuspendibleThreadSet_init_examples:
  "SuspendibleThreadSet_init (Suc 0) =
     \<lparr>nthreads = 0, nthreads_stopped = 0, suspend_all = False, synchronize_wakeup = 0,
      threads = [Outside], requester = No_request, signalled_by = [], waited = False\<rparr>"
  "SuspendibleThreadSet_init 2 =
     \<lparr>nthreads = 0, nthreads_stopped = 0, suspend_all = False, synchronize_wakeup = 0,
      threads = [Outside, Outside], requester = No_request, signalled_by = [], waited = False\<rparr>"
  by (simp_all add: SuspendibleThreadSet_init_def numeral_2_eq_2)

lemma example_schedule_run:
  "sts_run 0 example_schedule (SuspendibleThreadSet_init 2) =
     Some (Inr \<lparr>nthreads = 1, nthreads_stopped = 1, suspend_all = True, synchronize_wakeup = 1,
                threads = [Stopped, Outside], requester = On_semaphore, signalled_by = [1],
                waited = True\<rparr>)"
  by (simp add: example_schedule_def SuspendibleThreadSet_init_examples
      SuspendibleThreadSet_join_def
      SuspendibleThreadSet_leave_def SuspendibleThreadSet_yield_def
      SuspendibleThreadSet_synchronize_def is_synchronized_def check_def guarantee_def
      signal_def uint_incr_def Let_def)

theorem synchronize_signalled_once_witness:
  "\<exists>st. sts_run 0 example_schedule (SuspendibleThreadSet_init 2) = Some (Inr st)
      \<and> requester st = On_semaphore \<and> nthreads st = 1 \<and> nthreads_stopped st = 1
      \<and> length (signalled_by st) = 1 \<and> synchronize_wakeup st = 1
      \<and> (\<exists>st1. sts_step 0 Synchronize_wakeup st = Some (Inr st1) \<and> requester st1 = Returned)"
proof -
  let ?st = "\<lparr>nthreads = 1, nthreads_stopped = 1, suspend_all = True, synchronize_wakeup = 1,
                threads = [Stopped, Outside], requester = On_semaphore, signalled_by = [1],
                waited = True\<rparr>"
  have r: "sts_run 0 example_schedule (SuspendibleThreadSet_init 2) = Some (Inr ?st)"
    by (rule example_schedule_run)
  have "(2 :: nat) < 2 ^ 32" by simp
  from synchronize_signalled_once [OF this r]
  have "requester ?st = On_semaphore \<longrightarrow>
          (if nthreads_stopped ?st = nthreads ?st
           then length (signalled_by ?st) = 1 \<and> synchronize_wakeup ?st = 1
                \<and> (\<exists>st1. sts_step 0 Synchronize_wakeup ?st = Some (Inr st1)
                       \<and> requester st1 = Returned)
           else signalled_by ?st = [] \<and> synchronize_wakeup ?st = 0
                \<and> sts_step 0 Synchronize_wakeup ?st = None)"
    by (elim conjE)
  hence "length (signalled_by ?st) = 1 \<and> synchronize_wakeup ?st = 1
          \<and> (\<exists>st1. sts_step 0 Synchronize_wakeup ?st = Some (Inr st1) \<and> requester st1 = Returned)"
    by simp
  with r show ?thesis
    by (intro exI [of _ ?st]) simp
qed

text \<open>
  The claim as stated fails when the request finds every joined thread stopped already:
  \<^verbatim>\<open>synchronize\<close> then returns at once and the semaphore is not signalled at all. In the
  second schedule the last \<^verbatim>\<open>synchronize\<close> is called while one thread has joined (it is
  still asleep in \<^verbatim>\<open>yield\<close>), it returns without waiting, and no thread signals.
\<close>

theorem synchronize_without_signal_counterexample:
  "sts_run 0 second_request_schedule (SuspendibleThreadSet_init 1) =
     Some (Inr \<lparr>nthreads = 1, nthreads_stopped = 1, suspend_all = True, synchronize_wakeup = 0,
                threads = [Stopped], requester = Returned, signalled_by = [],
                waited = False\<rparr>)"
  by (simp add: second_request_schedule_def SuspendibleThreadSet_init_examples
      SuspendibleThreadSet_join_def SuspendibleThreadSet_yield_def
      SuspendibleThreadSet_synchronize_def SuspendibleThreadSet_synchronize_wakeup_def
      SuspendibleThreadSet_desynchronize_def is_synchronized_def check_def guarantee_def
      signal_def uint_incr_def Let_def)

section \<open>Properties of the compaction pipeline\<close>

lemma get_next_marked_addr_skip:
  "list_all (\<lambda>a. \<not> bitmap a) [lo ..< hi] \<Longrightarrow> lo \<le> hi \<Longrightarrow> hi \<le> limit \<Longrightarrow>
     get_next_marked_addr bitmap lo limit = get_next_marked_addr bitmap hi limit"
proof (induction "hi - lo" arbitrary: lo)
  case 0
  then show ?case by simp
next
  case (Suc d)
  hence lt: "lo < hi" and nb: "\<not> bitmap lo"
    and rest: "list_all (\<lambda>a. \<not> bitmap a) [Suc lo ..< hi]"
    by (auto simp: upt_conv_Cons)
  from Suc.hyps(2) have d: "d = hi - Suc lo" by simp
  from lt have "Suc lo \<le> hi" by simp
  from Suc.hyps(1) [OF d rest this Suc.prems(3)]
  have "get_next_marked_addr bitmap (Suc lo) limit = get_next_marked_addr bitmap hi limit" .
  moreover have "get_next_marked_addr bitmap lo limit = get_next_marked_addr bitmap (Suc lo) limit"
    using lt nb Suc.prems(3) by (subst get_next_marked_addr.simps) simp
  ultimately show ?case by simp
qed

lemma get_next_marked_addr_at:
  "bitmap addr \<Longrightarrow> addr < limit \<Longrightarrow> get_next_marked_addr bitmap addr limit = addr"
  by (subst get_next_marked_addr.simps) simp

lemma get_next_marked_addr_limit: "get_next_marked_addr bitmap limit limit = limit"
  by (subst get_next_marked_addr.simps) simp

text \<open>
  The walk of \<^verbatim>\<open>apply_to_marked_objects\<close> over a region with the given live objects
  applies the closure to exactly these objects, in order, and returns.
\<close>

lemma walk_marks:
  "live_objects bitmap lo limit os \<Longrightarrow> walk_ok closure os st st' \<Longrightarrow>
     apply_to_marked_objects_from closure bitmap limit lo st = Some (Inr st')"
proof (induction os arbitrary: lo st)
  case Nil
  hence le: "lo \<le> limit" and nm: "list_all (\<lambda>a. \<not> bitmap a) [lo ..< limit]" and st: "st' = st"
    by simp_all
  show ?case
  proof (cases "lo < limit")
    case True
    hence nb: "\<not> bitmap lo" using nm by (simp add: upt_conv_Cons)
    have g: "get_next_marked_addr bitmap lo limit = limit"
      using get_next_marked_addr_skip [OF nm le] by (simp add: get_next_marked_addr_limit)
    have "apply_to_marked_objects_from closure bitmap limit lo st =
            apply_to_marked_objects_from closure bitmap limit limit st"
      using True nb g by (subst apply_to_marked_objects_from.simps) simp
    also have "\<dots> = Some (Inr st)"
      by (subst apply_to_marked_objects_from.simps) simp
    finally show ?thesis using st by simp
  next
    case False
    with le have "lo = limit" by simp
    thus ?thesis using st by (subst apply_to_marked_objects_from.simps) simp
  qed
next
  case (Cons on os)
  obtain obj n where on: "on = (obj, n)" by (cases on)
  from Cons.prems(1) on have le: "lo \<le> obj"
    and nm: "list_all (\<lambda>a. \<not> bitmap a) [lo ..< obj]" and b: "bitmap obj"
    and n: "2 \<le> n" and fit: "obj + n \<le> limit"
    and rest: "live_objects bitmap (obj + n) limit os"
    by simp_all
  from Cons.prems(2) on obtain st1 where cl: "closure st obj = Inr (n, st1)"
    and w: "walk_ok closure os st1 st'"
    by (auto split: sum.splits)
  have lt: "obj < limit" using n fit by simp
  have at: "apply_to_marked_objects_from closure bitmap limit obj st = Some (Inr st')"
    using lt b cl Cons.IH [OF rest w] by (subst apply_to_marked_objects_from.simps) simp
  show ?case
  proof (cases "lo = obj")
    case True
    with at show ?thesis by simp
  next
    case False
    with le have l: "lo < obj" by simp
    hence nb: "\<not> bitmap lo" using nm by (simp add: upt_conv_Cons)
    have g: "get_next_marked_addr bitmap lo limit = obj"
      using get_next_marked_addr_skip [OF nm le, of limit] lt b
      by (simp add: get_next_marked_addr_at)
    have "apply_to_marked_objects_from closure bitmap limit lo st =
            apply_to_marked_objects_from closure bitmap limit obj st"
      using l lt nb g by (subst apply_to_marked_objects_from.simps) simp
    with at show ?thesis by simp
  qed
qed


lemma live_objects_bounds:
  "live_objects bitmap lo limit os \<Longrightarrow> (obj, n) \<in> set os \<Longrightarrow>
     lo \<le> obj \<and> 2 \<le> n \<and> obj + n \<le> limit"
proof (induction os arbitrary: lo)
  case Nil
  then show ?case by simp
next
  case (Cons on os)
  obtain obj1 n1 where on: "on = (obj1, n1)" by (cases on)
  show ?case
  proof (cases "(obj, n) = on")
    case True
    with Cons.prems(1) on show ?thesis by simp
  next
    case False
    with Cons.prems(2) have m: "(obj, n) \<in> set os" by simp
    from Cons.prems(1) on have "live_objects bitmap (obj1 + n1) limit os" and "lo \<le> obj1" by simp_all
    from Cons.IH [OF this(1) m] this(2) show ?thesis by simp
  qed
qed


lemma object_in_heap_cong:
  "h1 (Suc (fst on)) = h (Suc (fst on)) \<Longrightarrow>
     object_in_heap ksize koops h1 on = object_in_heap ksize koops h on"
  by (simp add: object_in_heap_def klass_def oop_size_def)

lemma objects_in_heap_cong:
  assumes "live_objects bitmap lo limit os" and "\<forall>a. lo \<le> a \<longrightarrow> h1 a = h a"
  shows "objects_in_heap ksize koops h1 os = objects_in_heap ksize koops h os"
proof -
  have "object_in_heap ksize koops h1 on = object_in_heap ksize koops h on" if "on \<in> set os" for on
  proof -
    obtain obj n where on: "on = (obj, n)" by (cases on)
    from live_objects_bounds [OF assms(1)] that on have "lo \<le> obj" by blast
    hence "h1 (Suc (fst on)) = h (Suc (fst on))" using assms(2) on by simp
    thus ?thesis by (rule object_in_heap_cong)
  qed
  thus ?thesis unfolding objects_in_heap_def list_all_iff by blast
qed

lemma field_addrs_cong:
  assumes "live_objects bitmap lo limit os" and "\<forall>a. lo \<le> a \<longrightarrow> h1 a = h a"
  shows "field_addrs koops h1 os = field_addrs koops h os"
proof -
  have "oop_fields koops h1 (fst on) = oop_fields koops h (fst on)" if "on \<in> set os" for on
  proof -
    obtain obj n where on: "on = (obj, n)" by (cases on)
    from live_objects_bounds [OF assms(1)] that on have "lo \<le> obj" by blast
    hence "h1 (Suc obj) = h (Suc obj)" using assms(2) by simp
    thus ?thesis using on by (simp add: oop_fields_def klass_def)
  qed
  hence "map (\<lambda>on. oop_fields koops h1 (fst on)) os = map (\<lambda>on. oop_fields koops h (fst on)) os"
    by simp
  thus ?thesis unfolding field_addrs_def by (rule arg_cong)
qed

lemma live_objects_not_start:
  "live_objects bitmap lo limit os \<Longrightarrow> a < lo \<Longrightarrow> a \<notin> fst ` set os"
  using live_objects_bounds by fastforce

subsection \<open>Phase 1\<close>

lemma phase1_walk:
  "live_objects bitmap lo limit os \<Longrightarrow> objects_in_heap ksize koops h os \<Longrightarrow>
     \<exists>h1. walk_ok (G1SemeruPrepareCompactLiveClosure_apply ksize) os (cursor, h)
             (cursor + sum_list (map snd os), h1)
        \<and> (\<forall>a. a \<notin> fst ` set os \<longrightarrow> h1 a = h a)
        \<and> list_all2 (\<lambda>d on. h1 (fst on) = (if fst on = d then 0 else d))
            (destinations cursor os) os"
proof (induction os arbitrary: lo cursor h)
  case Nil
  then show ?case by simp
next
  case (Cons on os)
  obtain obj n where on: "on = (obj, n)" by (cases on)
  from Cons.prems(1) on have n: "2 \<le> n"
    and rest: "live_objects bitmap (obj + n) limit os"
    by simp_all
  from Cons.prems(2) on have sz: "oop_size ksize h obj = n"
    and oh: "objects_in_heap ksize koops h os"
    by (simp_all add: objects_in_heap_def object_in_heap_def)
  define hA where "hA = (if obj = cursor then (if forwardee h obj = 0 then h else init_mark_raw obj h)
                         else forward_to obj cursor h)"
  have hA_obj: "hA obj = (if obj = cursor then 0 else cursor)"
    by (simp add: hA_def forwardee_def init_mark_raw_def forward_to_def)
  have hA_other: "hA a = h a" if "a \<noteq> obj" for a
    using that by (simp add: hA_def init_mark_raw_def forward_to_def)
  have cl: "G1SemeruPrepareCompactLiveClosure_apply ksize (cursor, h) obj = Inr (n, (cursor + n, hA))"
    by (simp add: G1SemeruPrepareCompactLiveClosure_apply_def sz hA_def)
  have "\<forall>a. obj + n \<le> a \<longrightarrow> hA a = h a" using n hA_other by simp
  from objects_in_heap_cong [OF rest this] oh
  have ohA: "objects_in_heap ksize koops hA os" by simp
  from Cons.IH [OF rest ohA, of "cursor + n"]
  obtain h1 where w: "walk_ok (G1SemeruPrepareCompactLiveClosure_apply ksize) os (cursor + n, hA)
             (cursor + n + sum_list (map snd os), h1)"
    and fr: "\<forall>a. a \<notin> fst ` set os \<longrightarrow> h1 a = hA a"
    and fw: "list_all2 (\<lambda>d on. h1 (fst on) = (if fst on = d then 0 else d))
            (destinations (cursor + n) os) os"
    by blast
  have "obj < obj + n" using n by simp
  from live_objects_not_start [OF rest this] have ns: "obj \<notin> fst ` set os" .
  hence h1_obj: "h1 obj = (if obj = cursor then 0 else cursor)" using fr hA_obj by simp
  have 1: "walk_ok (G1SemeruPrepareCompactLiveClosure_apply ksize) (on # os) (cursor, h)
             (cursor + sum_list (map snd (on # os)), h1)"
    using cl w on by (simp add: add.assoc)
  have 2: "\<forall>a. a \<notin> fst ` set (on # os) \<longrightarrow> h1 a = h a"
    using fr hA_other on by auto
  have 3: "list_all2 (\<lambda>d on. h1 (fst on) = (if fst on = d then 0 else d))
            (destinations cursor (on # os)) (on # os)"
    using fw h1_obj on by simp
  from 1 2 3 show ?case by blast
qed

subsection \<open>Phase 2\<close>

lemma adjust_frame:
  "a \<noteq> p \<Longrightarrow> fst (adjust_intra_region_pointer hr p st) a = fst st a"
  by (cases st) (simp add: Let_def)

lemma fold_adjust_frame:
  "a \<notin> set ps \<Longrightarrow> fst (fold (adjust_intra_region_pointer hr) ps st) a = fst st a"
proof (induction ps arbitrary: st)
  case Nil
  show ?case by simp
next
  case (Cons p ps)
  hence "a \<noteq> p" "a \<notin> set ps" by simp_all
  from Cons.IH [OF this(2)] adjust_frame [OF this(1)] show ?case by simp
qed

lemma oop_fields_bounds:
  "object_in_heap ksize koops h (obj, n) \<Longrightarrow> p \<in> set (oop_fields koops h obj) \<Longrightarrow>
     obj + 2 \<le> p \<and> p < obj + n"
  by (auto simp: object_in_heap_def oop_fields_def list_all_iff)

lemma phase2_walk:
  "live_objects bitmap lo limit os \<Longrightarrow> objects_in_heap ksize koops (fst st) os \<Longrightarrow>
     walk_ok (G1SemeruAdjustLiveClosure_apply ksize koops hr) os st
       (fold (adjust_intra_region_pointer hr) (field_addrs koops (fst st) os) st)"
proof (induction os arbitrary: lo st)
  case Nil
  show ?case by (simp add: field_addrs_def)
next
  case (Cons on os)
  obtain obj n where on: "on = (obj, n)" by (cases on)
  from Cons.prems(1) on have rest: "live_objects bitmap (obj + n) limit os" by simp
  from Cons.prems(2) on have o1: "object_in_heap ksize koops (fst st) (obj, n)"
    and oh: "objects_in_heap ksize koops (fst st) os"
    by (simp_all add: objects_in_heap_def)
  from o1 have sz: "oop_size ksize (fst st) obj = n" by (simp add: object_in_heap_def)
  define st1 where "st1 = fold (adjust_intra_region_pointer hr) (oop_fields koops (fst st) obj) st"
  have cl: "G1SemeruAdjustLiveClosure_apply ksize koops hr st obj = Inr (n, st1)"
    by (simp add: G1SemeruAdjustLiveClosure_apply_def oop_iterate_size_def sz st1_def)
  have fr: "\<forall>a. obj + n \<le> a \<longrightarrow> fst st1 a = fst st a"
  proof (intro allI impI)
    fix a assume "obj + n \<le> a"
    hence "a \<notin> set (oop_fields koops (fst st) obj)"
      using oop_fields_bounds [OF o1] by fastforce
    thus "fst st1 a = fst st a" unfolding st1_def by (rule fold_adjust_frame)
  qed
  from objects_in_heap_cong [OF rest fr] oh
  have oh1: "objects_in_heap ksize koops (fst st1) os" by simp
  have fa: "field_addrs koops (fst st1) os = field_addrs koops (fst st) os"
    using rest fr by (rule field_addrs_cong)
  from Cons.IH [OF rest oh1]
  have "walk_ok (G1SemeruAdjustLiveClosure_apply ksize koops hr) os st1
          (fold (adjust_intra_region_pointer hr) (field_addrs koops (fst st) os) st1)"
    by (simp add: fa)
  moreover have "field_addrs koops (fst st) (on # os) =
      oop_fields koops (fst st) obj @ field_addrs koops (fst st) os"
    by (simp add: field_addrs_def on)
  ultimately show ?case using cl on by (simp add: st1_def)
qed


subsection \<open>Phase 3\<close>

text \<open>
  One step of the copy closure on an object that phase 1 has forwarded to the cursor (or
  left in place at the cursor): the object lies at the cursor afterwards, with a fresh
  header, and no word outside the destination range has changed.
\<close>

lemma compact_closure_step:
  assumes "0 < cursor" and "cursor \<le> obj" and "2 \<le> n"
    and "oop_size ksize h obj = n" and "klass h obj \<noteq> 0"
    and "h obj = (if obj = cursor then 0 else cursor)"
  shows "\<exists>hA. G1CompactRegionClosure_apply ksize h obj = Inr (n, hA)
           \<and> hA cursor = 0
           \<and> (\<forall>j. 1 \<le> j \<and> j < n \<longrightarrow> hA (cursor + j) = h (obj + j))
           \<and> (\<forall>a. a < cursor \<or> cursor + n \<le> a \<longrightarrow> hA a = h a)"
proof (cases "obj = cursor")
  case True
  with assms(6) have "forwardee h obj = 0" by (simp add: forwardee_def)
  hence "G1CompactRegionClosure_apply ksize h obj = Inr (n, h)"
    using assms(4) by (simp add: G1CompactRegionClosure_apply_def Let_def)
  moreover have "h cursor = 0" using True assms(6) by simp
  ultimately show ?thesis using True by auto
next
  case False
  with assms(6) have fw: "forwardee h obj = cursor" by (simp add: forwardee_def)
  define hA where "hA = init_mark_raw cursor (aligned_conjoint_words obj cursor n h)"
  have k: "klass hA cursor = klass h obj"
    using assms(3) by (simp add: hA_def klass_def init_mark_raw_def aligned_conjoint_words_def)
  have "G1CompactRegionClosure_apply ksize h obj = Inr (n, hA)"
    using fw False assms(1,4,5) k
    by (simp add: G1CompactRegionClosure_apply_def Let_def hA_def)
  moreover have "hA cursor = 0" by (simp add: hA_def init_mark_raw_def)
  moreover have "\<forall>j. 1 \<le> j \<and> j < n \<longrightarrow> hA (cursor + j) = h (obj + j)"
    by (auto simp: hA_def init_mark_raw_def aligned_conjoint_words_def)
  moreover have "\<forall>a. a < cursor \<or> cursor + n \<le> a \<longrightarrow> hA a = h a"
    using assms(3) by (auto simp: hA_def init_mark_raw_def aligned_conjoint_words_def)
  ultimately show ?thesis by blast
qed

lemma compact_walk:
  "live_objects bitmap lo limit os \<Longrightarrow> 0 < cursor \<Longrightarrow> cursor \<le> lo \<Longrightarrow>
   objects_in_heap ksize koops h os \<Longrightarrow>
   list_all2 (\<lambda>d on. h (fst on) = (if fst on = d then 0 else d)) (destinations cursor os) os \<Longrightarrow>
     \<exists>h'. walk_ok (G1CompactRegionClosure_apply ksize) os h h'
        \<and> (\<forall>a. a < cursor \<or> cursor + sum_list (map snd os) \<le> a \<longrightarrow> h' a = h a)
        \<and> list_all2 (\<lambda>d on. h' d = 0
               \<and> (\<forall>j. 1 \<le> j \<and> j < snd on \<longrightarrow> h' (d + j) = h (fst on + j)))
            (destinations cursor os) os"
proof (induction os arbitrary: lo cursor h)
  case Nil
  then show ?case by simp
next
  case (Cons on os)
  obtain obj n where on: "on = (obj, n)" by (cases on)
  from Cons.prems(1) on have le: "lo \<le> obj" and n: "2 \<le> n"
    and rest: "live_objects bitmap (obj + n) limit os"
    by simp_all
  from Cons.prems(4) on have sz: "oop_size ksize h obj = n" and k: "klass h obj \<noteq> 0"
    and oh: "objects_in_heap ksize koops h os"
    by (simp_all add: objects_in_heap_def object_in_heap_def)
  from Cons.prems(5) on have hd: "h obj = (if obj = cursor then 0 else cursor)"
    and fw: "list_all2 (\<lambda>d on. h (fst on) = (if fst on = d then 0 else d))
               (destinations (cursor + n) os) os"
    by simp_all
  have co: "cursor \<le> obj" using Cons.prems(3) le by simp
  from compact_closure_step [OF Cons.prems(2) co n sz k hd]
  obtain hA where cl: "G1CompactRegionClosure_apply ksize h obj = Inr (n, hA)"
    and A0: "hA cursor = 0"
    and Ab: "\<forall>j. 1 \<le> j \<and> j < n \<longrightarrow> hA (cursor + j) = h (obj + j)"
    and Af: "\<forall>a. a < cursor \<or> cursor + n \<le> a \<longrightarrow> hA a = h a"
    by blast
  have above: "\<forall>a. obj + n \<le> a \<longrightarrow> hA a = h a" using Af co by simp
  from objects_in_heap_cong [OF rest above] oh
  have ohA: "objects_in_heap ksize koops hA os" by simp
  have fwA: "list_all2 (\<lambda>d on. hA (fst on) = (if fst on = d then 0 else d))
               (destinations (cursor + n) os) os"
    using fw
  proof (rule list.rel_mono_strong)
    fix d on1
    assume m: "on1 \<in> set os" and p: "h (fst on1) = (if fst on1 = d then 0 else d)"
    obtain o1 n1 where on1: "on1 = (o1, n1)" by (cases on1)
    from live_objects_bounds [OF rest] m on1 have "obj + n \<le> o1" by blast
    with above on1 have "hA (fst on1) = h (fst on1)" by simp
    with p show "hA (fst on1) = (if fst on1 = d then 0 else d)" by simp
  qed
  have c0: "0 < cursor + n" using Cons.prems(2) by simp
  have c1: "cursor + n \<le> obj + n" using co by simp
  from Cons.IH [OF rest c0 c1 ohA fwA]
  obtain h' where w: "walk_ok (G1CompactRegionClosure_apply ksize) os hA h'"
    and fr: "\<forall>a. a < cursor + n \<or> cursor + n + sum_list (map snd os) \<le> a \<longrightarrow> h' a = hA a"
    and mv: "list_all2 (\<lambda>d on. h' d = 0
               \<and> (\<forall>j. 1 \<le> j \<and> j < snd on \<longrightarrow> h' (d + j) = hA (fst on + j)))
            (destinations (cursor + n) os) os"
    by blast
  have 1: "walk_ok (G1CompactRegionClosure_apply ksize) (on # os) h h'"
    using cl w on by simp
  have 2: "\<forall>a. a < cursor \<or> cursor + sum_list (map snd (on # os)) \<le> a \<longrightarrow> h' a = h a"
  proof (intro allI impI)
    fix a assume a: "a < cursor \<or> cursor + sum_list (map snd (on # os)) \<le> a"
    hence "a < cursor + n \<or> cursor + n + sum_list (map snd os) \<le> a" using on by auto
    with fr have "h' a = hA a" by blast
    moreover from a on have "a < cursor \<or> cursor + n \<le> a" by auto
    with Af have "hA a = h a" by blast
    ultimately show "h' a = h a" by simp
  qed
  have here: "h' cursor = 0 \<and> (\<forall>j. 1 \<le> j \<and> j < n \<longrightarrow> h' (cursor + j) = h (obj + j))"
  proof -
    have "h' cursor = hA cursor" using fr n by simp
    moreover have "h' (cursor + j) = hA (cursor + j)" if "j < n" for j using fr that by simp
    ultimately show ?thesis using A0 Ab by simp
  qed
  have mv1: "list_all2 (\<lambda>d on. h' d = 0
               \<and> (\<forall>j. 1 \<le> j \<and> j < snd on \<longrightarrow> h' (d + j) = h (fst on + j)))
            (destinations (cursor + n) os) os"
    using mv
  proof (rule list.rel_mono_strong)
    fix d on1
    assume m: "on1 \<in> set os"
      and p: "h' d = 0 \<and> (\<forall>j. 1 \<le> j \<and> j < snd on1 \<longrightarrow> h' (d + j) = hA (fst on1 + j))"
    obtain o1 n1 where on1: "on1 = (o1, n1)" by (cases on1)
    from live_objects_bounds [OF rest] m on1 have "obj + n \<le> o1" by blast
    hence "hA (fst on1 + j) = h (fst on1 + j)" for j using above on1 by simp
    with p show "h' d = 0 \<and> (\<forall>j. 1 \<le> j \<and> j < snd on1 \<longrightarrow> h' (d + j) = h (fst on1 + j))"
      by simp
  qed
  have 3: "list_all2 (\<lambda>d on. h' d = 0
               \<and> (\<forall>j. 1 \<le> j \<and> j < snd on \<longrightarrow> h' (d + j) = h (fst on + j)))
            (destinations cursor (on # os)) (on # os)"
    using here mv1 on by simp
  from 1 2 3 show ?case by blast
qed


subsection \<open>The three phases together\<close>

lemma live_objects_apart:
  "live_objects bitmap lo limit os \<Longrightarrow> (o1, n1) \<in> set os \<Longrightarrow> (o2, n2) \<in> set os \<Longrightarrow>
     o1 \<le> a \<Longrightarrow> a < o1 + n1 \<Longrightarrow> o2 \<le> a \<Longrightarrow> a < o2 + n2 \<Longrightarrow> o1 = o2"
proof (induction os arbitrary: lo)
  case Nil
  then show ?case by simp
next
  case (Cons on os)
  obtain obj n where on: "on = (obj, n)" by (cases on)
  from Cons.prems(1) on have rest: "live_objects bitmap (obj + n) limit os" by simp
  note b = live_objects_bounds [OF rest]
  show ?case
  proof (cases "(o1, n1) = on")
    case True
    show ?thesis
    proof (cases "(o2, n2) = on")
      case True
      with \<open>(o1, n1) = on\<close> on show ?thesis by simp
    next
      case False
      with Cons.prems(3) have "(o2, n2) \<in> set os" by simp
      from b [OF this] have "obj + n \<le> o2" by simp
      with True on Cons.prems(5,6) show ?thesis by simp
    qed
  next
    case False
    with Cons.prems(2) have m1: "(o1, n1) \<in> set os" by simp
    show ?thesis
    proof (cases "(o2, n2) = on")
      case True
      from b [OF m1] have "obj + n \<le> o1" by simp
      with True on Cons.prems(4,7) show ?thesis by simp
    next
      case False
      with Cons.prems(3) have "(o2, n2) \<in> set os" by simp
      from Cons.IH [OF rest m1 this Cons.prems(4-7)] show ?thesis .
    qed
  qed
qed

lemma field_addrs_in_object:
  assumes "objects_in_heap ksize koops h os" and "p \<in> set (field_addrs koops h os)"
  shows "\<exists>obj n. (obj, n) \<in> set os \<and> obj + 2 \<le> p \<and> p < obj + n"
proof -
  from assms(2) obtain on where m: "on \<in> set os" and p: "p \<in> set (oop_fields koops h (fst on))"
    by (auto simp: field_addrs_def)
  obtain obj n where on: "on = (obj, n)" by (cases on)
  from assms(1) m on have "object_in_heap ksize koops h (obj, n)"
    by (simp add: objects_in_heap_def list_all_iff)
  from oop_fields_bounds [OF this] p on have "obj + 2 \<le> p \<and> p < obj + n" by simp
  with m on show ?thesis by blast
qed

lemma header_not_field:
  assumes "live_objects bitmap lo limit os" and "objects_in_heap ksize koops h os"
    and "(obj, n) \<in> set os"
  shows "obj \<notin> set (field_addrs koops h os)" and "Suc obj \<notin> set (field_addrs koops h os)"
proof -
  from live_objects_bounds [OF assms(1,3)] have n: "2 \<le> n" by simp
  show "obj \<notin> set (field_addrs koops h os)"
  proof
    assume "obj \<in> set (field_addrs koops h os)"
    from field_addrs_in_object [OF assms(2) this]
    obtain o2 n2 where m: "(o2, n2) \<in> set os" and b: "o2 + 2 \<le> obj" "obj < o2 + n2" by blast
    have "obj = o2"
      using assms(1,3) m _ _ _ b(2)
    proof (rule live_objects_apart)
      show "obj \<le> obj" by simp
      show "obj < obj + n" using n by simp
      show "o2 \<le> obj" using b(1) by simp
    qed
    with b(1) show False by simp
  qed
  show "Suc obj \<notin> set (field_addrs koops h os)"
  proof
    assume "Suc obj \<in> set (field_addrs koops h os)"
    from field_addrs_in_object [OF assms(2) this]
    obtain o2 n2 where m: "(o2, n2) \<in> set os" and b: "o2 + 2 \<le> Suc obj" "Suc obj < o2 + n2" by blast
    have "obj = o2"
      using assms(1,3) m _ _ _ b(2)
    proof (rule live_objects_apart)
      show "obj \<le> Suc obj" by simp
      show "Suc obj < obj + n" using n by simp
      show "o2 \<le> Suc obj" using b(1) by simp
    qed
    with b(1) show False by simp
  qed
qed

lemma class_word_not_start:
  assumes "live_objects bitmap lo limit os" and "(obj, n) \<in> set os"
  shows "Suc obj \<notin> fst ` set os"
proof
  assume "Suc obj \<in> fst ` set os"
  then obtain n2 where m: "(Suc obj, n2) \<in> set os" by auto
  from live_objects_bounds [OF assms(1,2)] have n: "2 \<le> n" by simp
  from live_objects_bounds [OF assms(1) m] have n2: "2 \<le> n2" by simp
  have "obj = Suc obj"
    using assms(1,2) m
  proof (rule live_objects_apart)
    show "obj \<le> Suc obj" by simp
    show "Suc obj < obj + n" using n by simp
    show "Suc obj \<le> Suc obj" by simp
    show "Suc obj < Suc obj + n2" using n2 by simp
  qed
  thus False by simp
qed

lemma objects_in_heap_class_cong:
  assumes "\<forall>on \<in> set os. h1 (Suc (fst on)) = h (Suc (fst on))"
  shows "objects_in_heap ksize koops h1 os = objects_in_heap ksize koops h os"
    and "field_addrs koops h1 os = field_addrs koops h os"
proof -
  have "object_in_heap ksize koops h1 on = object_in_heap ksize koops h on" if "on \<in> set os" for on
    using assms that by (intro object_in_heap_cong) simp
  thus "objects_in_heap ksize koops h1 os = objects_in_heap ksize koops h os"
    unfolding objects_in_heap_def list_all_iff by blast
  have "oop_fields koops h1 (fst on) = oop_fields koops h (fst on)" if "on \<in> set os" for on
    using assms that by (simp add: oop_fields_def klass_def)
  hence "map (\<lambda>on. oop_fields koops h1 (fst on)) os = map (\<lambda>on. oop_fields koops h (fst on)) os"
    by simp
  thus "field_addrs koops h1 os = field_addrs koops h os"
    unfolding field_addrs_def by (rule arg_cong)
qed

lemma destinations_bounds:
  "live_objects bitmap lo limit os \<Longrightarrow> cursor \<le> lo \<Longrightarrow>
     list_all2 (\<lambda>d on. d \<le> fst on \<and> d < limit
                  \<and> d + snd on \<le> cursor + sum_list (map snd os))
       (destinations cursor os) os"
proof (induction os arbitrary: lo cursor)
  case Nil
  then show ?case by simp
next
  case (Cons on os)
  obtain obj n where on: "on = (obj, n)" by (cases on)
  from Cons.prems(1) on have le: "lo \<le> obj" and n: "2 \<le> n" and fit: "obj + n \<le> limit"
    and rest: "live_objects bitmap (obj + n) limit os"
    by simp_all
  have "cursor + n \<le> obj + n" using Cons.prems(2) le by simp
  from Cons.IH [OF rest this]
  have "list_all2 (\<lambda>d on. d \<le> fst on \<and> d < limit
                  \<and> d + snd on \<le> cursor + n + sum_list (map snd os))
       (destinations (cursor + n) os) os" .
  hence "list_all2 (\<lambda>d on1. d \<le> fst on1 \<and> d < limit
                  \<and> d + snd on1 \<le> cursor + sum_list (map snd (on # os)))
       (destinations (cursor + n) os) os"
    by (rule list_all2_mono) (simp add: on add.assoc)
  moreover have "cursor \<le> obj \<and> cursor < limit" using Cons.prems(2) le n fit by simp
  ultimately show ?case using on by simp
qed


lemma list_all2_both:
  "list_all2 P xs ys \<Longrightarrow> list_all2 Q xs ys \<Longrightarrow> list_all2 (\<lambda>x y. P x y \<and> Q x y) xs ys"
  by (simp add: list_all2_conv_all_nth)

text \<open>
  Claim C2. Take a region of the compaction queue (not humongous, not open archive, with
  \<open>bottom\<close> not \<^verbatim>\<open>NULL\<close>) and its live objects: the marked addresses below \<open>top\<close>, in
  address order, with the sizes that their classes give. Phases 1 to 3 return, and
  afterwards \<open>top\<close> is \<open>bottom\<close> plus the sum of the sizes of the live objects, so the
  bytes in use are those of the live objects; the live objects lie at the addresses that
  the cursor gave them, each not above its old address and strictly below the old
  \<open>top\<close>, with a fresh header and the class and size it had before.
\<close>

theorem compaction_layout:
  assumes "0 < r_bottom r" and "\<not> is_humongous r" and "\<not> is_open_archive r"
    and "live_objects bitmap (r_bottom r) (r_top r) os"
    and "objects_in_heap ksize koops h os"
  shows "\<exists>r3 h3 queue3 bitmap3.
      phases_1_to_3 ksize koops ZapUnusedHeapArea badHeapWord start_bottom r (h, queue, bitmap)
        = Some (Inr (r3, h3, queue3, bitmap3))
      \<and> r_bottom r3 = r_bottom r
      \<and> r_top r3 = r_bottom r + sum_list (map snd os)
      \<and> used r3 = HeapWordSize * sum_list (map snd os)
      \<and> list_all2 (\<lambda>d on. d \<le> fst on \<and> d < r_top r \<and> forwardee h3 d = 0
                      \<and> klass h3 d = klass h (fst on) \<and> oop_size ksize h3 d = snd on)
           (destinations (r_bottom r) os) os"
proof -
  define total where "total = sum_list (map snd os)"
  define r1 where "r1 = r\<lparr>compaction_top := r_bottom r + total\<rparr>"
  \<comment> \<open>phase 1\<close>
  from phase1_walk [OF assms(4,5), of "r_bottom r"]
  obtain h1 where w1: "walk_ok (G1SemeruPrepareCompactLiveClosure_apply ksize) os (r_bottom r, h)
             (r_bottom r + total, h1)"
    and fr1: "\<forall>a. a \<notin> fst ` set os \<longrightarrow> h1 a = h a"
    and fw1: "list_all2 (\<lambda>d on. h1 (fst on) = (if fst on = d then 0 else d))
            (destinations (r_bottom r) os) os"
    unfolding total_def by blast
  have p1: "phase1_prepare_for_compact ksize bitmap r h = Some (Inr (r1, h1))"
    using walk_marks [OF assms(4) w1]
    by (simp add: phase1_prepare_for_compact_def apply_to_marked_objects_def scan_limit_def r1_def)
  have cw1: "\<forall>on \<in> set os. h1 (Suc (fst on)) = h (Suc (fst on))"
  proof
    fix on assume m: "on \<in> set os"
    obtain obj n where on: "on = (obj, n)" by (cases on)
    from class_word_not_start [OF assms(4)] m on have "Suc obj \<notin> fst ` set os" by blast
    with fr1 on show "h1 (Suc (fst on)) = h (Suc (fst on))" by simp
  qed
  have oh1: "objects_in_heap ksize koops h1 os"
    using objects_in_heap_class_cong(1) [OF cw1] assms(5) by simp
  \<comment> \<open>phase 2\<close>
  define st2 where
    "st2 = fold (adjust_intra_region_pointer r1) (field_addrs koops h1 os) (h1, queue)"
  obtain h2 queue2 where st2_eq: "st2 = (h2, queue2)" by (cases st2)
  have live1: "live_objects bitmap (r_bottom r1) (r_top r1) os"
    using assms(4) by (simp add: r1_def)
  have w2: "walk_ok (G1SemeruAdjustLiveClosure_apply ksize koops r1) os (h1, queue) st2"
    using phase2_walk [OF assms(4), of ksize koops "(h1, queue)" r1] oh1 by (simp add: st2_def)
  have a2: "apply_to_marked_objects (G1SemeruAdjustLiveClosure_apply ksize koops r1) bitmap r1
              (h1, queue) = Some (Inr (h2, queue2))"
    using walk_marks [OF live1 w2] st2_eq
    by (simp add: apply_to_marked_objects_def scan_limit_def)
  have ty: "\<not> is_humongous r1" "\<not> is_open_archive r1"
    using assms(2,3) by (simp_all add: r1_def is_humongous_def is_open_archive_def)
  have p2: "G1SemeruAdjustRegionClosure_do_heap_region ksize koops start_bottom r1
              (h1, queue, bitmap) = Some (Inr (h2, queue2, bitmap))"
    using ty a2 by (simp add: G1SemeruAdjustRegionClosure_do_heap_region_def)
  have fr2: "h2 a = h1 a" if "a \<notin> set (field_addrs koops h1 os)" for a
    using fold_adjust_frame [OF that, of r1 "(h1, queue)"] st2_eq by (simp add: st2_def)
  have hd2: "h2 (fst on) = h1 (fst on) \<and> h2 (Suc (fst on)) = h1 (Suc (fst on))"
    if "on \<in> set os" for on
  proof -
    obtain obj n where on: "on = (obj, n)" by (cases on)
    from header_not_field [OF assms(4) oh1] that on
    have "obj \<notin> set (field_addrs koops h1 os)" "Suc obj \<notin> set (field_addrs koops h1 os)"
      by blast+
    with fr2 on show ?thesis by simp
  qed
  have oh2: "objects_in_heap ksize koops h2 os"
    using objects_in_heap_class_cong(1) [of os h2 h1] hd2 oh1 by simp
  have fw2: "list_all2 (\<lambda>d on. h2 (fst on) = (if fst on = d then 0 else d))
            (destinations (r_bottom r) os) os"
    using fw1 by (rule list.rel_mono_strong) (simp add: hd2)
  \<comment> \<open>phase 3\<close>
  from compact_walk [OF assms(4,1) order_refl oh2 fw2]
  obtain hC where w3: "walk_ok (G1CompactRegionClosure_apply ksize) os h2 hC"
    and mv: "list_all2 (\<lambda>d on. hC d = 0
               \<and> (\<forall>j. 1 \<le> j \<and> j < snd on \<longrightarrow> hC (d + j) = h2 (fst on + j)))
            (destinations (r_bottom r) os) os"
    by blast
  have a3: "apply_to_marked_objects (G1CompactRegionClosure_apply ksize) bitmap r1 h2
              = Some (Inr hC)"
    using walk_marks [OF live1 w3] by (simp add: apply_to_marked_objects_def scan_limit_def)
  obtain r3 h3 where cc: "complete_compaction ZapUnusedHeapArea badHeapWord r1 hC = (r3, h3)"
    by (cases "complete_compaction ZapUnusedHeapArea badHeapWord r1 hC")
  have p3: "compact_region ksize ZapUnusedHeapArea badHeapWord bitmap r1 h2
              = Some (Inr (r3, h3, clear_region bitmap r1))"
    using ty(1) a3 cc by (simp add: compact_region_def)
  have r3b: "r_bottom r3 = r_bottom r" and r3t: "r_top r3 = r_bottom r + total"
    and r3e: "r_end r3 = r_end r"
    using cc
    by (auto simp: complete_compaction_def Let_def reset_after_compaction_def set_top_def
        reset_bot_def zero_marked_bytes_def init_top_at_mark_start_def r1_def split: if_splits)
  have h3: "h3 a = hC a" if "a < r_bottom r + total" for a
    using cc that r3t
    by (auto simp: complete_compaction_def Let_def mangle_unused_area_def split: if_splits)
  have run: "phases_1_to_3 ksize koops ZapUnusedHeapArea badHeapWord start_bottom r
               (h, queue, bitmap) = Some (Inr (r3, h3, queue2, clear_region bitmap r1))"
    by (simp add: phases_1_to_3_def p1 p2 p3)
  have us: "used r3 = HeapWordSize * total"
    by (simp add: used_def pointer_delta_def r3b r3t)
  have db: "list_all2 (\<lambda>d on. d \<le> fst on \<and> d < r_top r
                  \<and> d + snd on \<le> r_bottom r + total)
       (destinations (r_bottom r) os) os"
    using destinations_bounds [OF assms(4) order_refl] by (simp add: total_def)
  have both: "list_all2 (\<lambda>d on. (d \<le> fst on \<and> d < r_top r \<and> d + snd on \<le> r_bottom r + total)
                 \<and> (hC d = 0 \<and> (\<forall>j. 1 \<le> j \<and> j < snd on \<longrightarrow> hC (d + j) = h2 (fst on + j))))
       (destinations (r_bottom r) os) os"
    using db mv by (rule list_all2_both)
  have placed: "list_all2 (\<lambda>d on. d \<le> fst on \<and> d < r_top r \<and> forwardee h3 d = 0
                      \<and> klass h3 d = klass h (fst on) \<and> oop_size ksize h3 d = snd on)
           (destinations (r_bottom r) os) os"
    using both
  proof (rule list.rel_mono_strong)
    fix d on
    assume m: "on \<in> set os"
      and p: "(d \<le> fst on \<and> d < r_top r \<and> d + snd on \<le> r_bottom r + total)
                 \<and> (hC d = 0 \<and> (\<forall>j. 1 \<le> j \<and> j < snd on \<longrightarrow> hC (d + j) = h2 (fst on + j)))"
    obtain obj n where on: "on = (obj, n)" by (cases on)
    from live_objects_bounds [OF assms(4)] m on have n: "2 \<le> n" by blast
    from p on n have lt: "d < r_bottom r + total" "Suc d < r_bottom r + total" by simp_all
    have z: "h3 d = 0" using h3 [OF lt(1)] p by simp
    have "\<forall>j. 1 \<le> j \<and> j < n \<longrightarrow> hC (d + j) = h2 (obj + j)" using p on by simp
    hence "hC (d + 1) = h2 (obj + 1)" using n by (elim allE [of _ 1]) simp
    moreover have "h1 (Suc obj) = h (Suc obj)" using cw1 m on by fastforce
    ultimately have "h3 (Suc d) = h (Suc obj)" using h3 [OF lt(2)] hd2 [OF m] on by simp
    moreover from assms(5) m on have "oop_size ksize h obj = n"
      by (fastforce simp: objects_in_heap_def object_in_heap_def list_all_iff)
    ultimately show "d \<le> fst on \<and> d < r_top r \<and> forwardee h3 d = 0
                      \<and> klass h3 d = klass h (fst on) \<and> oop_size ksize h3 d = snd on"
      using p on z by (simp add: forwardee_def klass_def oop_size_def)
  qed
  from run r3b r3t us placed show ?thesis unfolding total_def by blast
qed


lemma scenario_live_objects:
  "live_objects scenario_bitmap (r_bottom scenario_region) (r_top scenario_region) scenario_objects"
  by (auto simp: scenario_region_def scenario_objects_def scenario_bitmap_def list_all_iff)

lemma scenario_objects_in_heap:
  "objects_in_heap (\<lambda>k. k) scenario_koops scenario_heap scenario_objects"
  by (simp add: objects_in_heap_def object_in_heap_def scenario_objects_def scenario_heap_def
      scenario_koops_def klass_def oop_size_def)

theorem compaction_layout_witness:
  "\<exists>r3 h3 queue3 bitmap3.
      phases_1_to_3 (\<lambda>k. k) scenario_koops False 0 None scenario_region
        (scenario_heap, [], scenario_bitmap) = Some (Inr (r3, h3, queue3, bitmap3))
      \<and> r_top r3 = 1024 + 448 \<and> used r3 = 8 * 448
      \<and> klass h3 1024 = 64 \<and> klass h3 1088 = 128 \<and> klass h3 1216 = 256"
proof -
  have 1: "0 < r_bottom scenario_region"
    by (simp add: scenario_region_def)
  have 2: "\<not> is_humongous scenario_region" and 3: "\<not> is_open_archive scenario_region"
    by (simp_all add: scenario_region_def example_old_region_def example_region_def
        is_humongous_def is_open_archive_def)
  from compaction_layout [OF 1 2 3 scenario_live_objects scenario_objects_in_heap,
      of False 0 None "[]"]
  obtain r3 h3 queue3 bitmap3 where
    run: "phases_1_to_3 (\<lambda>k. k) scenario_koops False 0 None scenario_region
        (scenario_heap, [], scenario_bitmap) = Some (Inr (r3, h3, queue3, bitmap3))"
    and t: "r_top r3 = r_bottom scenario_region + sum_list (map snd scenario_objects)"
    and u: "used r3 = HeapWordSize * sum_list (map snd scenario_objects)"
    and p: "list_all2 (\<lambda>d on. d \<le> fst on \<and> d < r_top scenario_region \<and> forwardee h3 d = 0
                      \<and> klass h3 d = klass scenario_heap (fst on) \<and> oop_size (\<lambda>k. k) h3 d = snd on)
           (destinations (r_bottom scenario_region) scenario_objects) scenario_objects"
    by blast
  have "r_top r3 = 1024 + 448" "used r3 = 8 * 448"
    using t u by (simp_all add: scenario_region_def scenario_objects_def HeapWordSize_def)
  moreover have "klass h3 1024 = 64 \<and> klass h3 1088 = 128 \<and> klass h3 1216 = 256"
    using p by (simp add: scenario_region_def scenario_objects_def scenario_heap_def klass_def)
  ultimately show ?thesis using run by blast
qed

subsection \<open>Archive regions in the adjust phase\<close>





















end
